theory Spec2Isabelle
  imports Main "HOL-Library.AList" "HOL-Library.Char_ord" "HOL-Library.List_Lexorder"
begin

chapter \<open>The EventSource hub: message codec, dispatcher and consumer worker\<close>

text \<open>
  A shallow embedding of the Go package \<^verbatim>\<open>eventsource\<close>: the message codec
  (\<^verbatim>\<open>newEventMessage\<close>, \<^verbatim>\<open>Message\<close>), the hub's
  \<^verbatim>\<open>actionDispatcher\<close> with its five request channels, the consumer's
  \<^verbatim>\<open>inboxDispatcher\<close> and the subscribe path. Functions of the Go standard
  library that the package calls (\<^verbatim>\<open>encoding/json\<close>, \<^verbatim>\<open>fmt\<close>,
  \<^verbatim>\<open>strings\<close>, \<^verbatim>\<open>net\<close>) are modelled by what they are
  documented to return.
\<close>

section \<open>Definitions\<close>

subsection \<open>Event messages\<close>

text \<open>
  The struct \<^verbatim>\<open>eventMessage\<close>. \<^verbatim>\<open>Id\<close> is a Go
  \<^verbatim>\<open>uint\<close>; the package never computes with it (it is decoded, compared with
  zero and printed), so it is a natural number here. The field is written \<open>Id'\<close>
  because \<open>Id\<close> is the identity relation of HOL.
\<close>

record eventMessage =
  Id' :: nat
  Event :: string
  Data :: string
  Channel :: string

definition newline :: char where
  "newline = CHR 0x0A"

text \<open>The zero value of \<^verbatim>\<open>var em eventMessage\<close>.\<close>

definition zero_eventMessage :: eventMessage where
  "zero_eventMessage = \<lparr>Id' = 0, Event = [], Data = [], Channel = []\<rparr>"

subsection \<open>Rendering: \<^verbatim>\<open>Message\<close>\<close>

text \<open>
  \<^verbatim>\<open>fmt.Sprintf("%d", n)\<close> for an unsigned \<open>n\<close>: the decimal digits, most
  significant first, taken from the digit table of \<^verbatim>\<open>fmt\<close>.
\<close>

definition digits :: string where
  "digits = ''0123456789''"

fun decimal :: "nat \<Rightarrow> string" where
  "decimal n = (if n < 10 then [digits ! n] else decimal (n div 10) @ [digits ! (n mod 10)])"

declare decimal.simps [simp del]

text \<open>
  \<^verbatim>\<open>strings.Replace(s, old, new, -1)\<close> for a one-character \<open>old\<close>: every
  occurrence is replaced. \<^verbatim>\<open>strings.Split(s, sep)\<close> for a one-character
  separator: the segments between the separators, one more than there are separators.
\<close>

definition Replace :: "string \<Rightarrow> char \<Rightarrow> string \<Rightarrow> string" where
  "Replace s old new = concat (map (\<lambda>c. if c = old then new else [c]) s)"

fun Split :: "string \<Rightarrow> char \<Rightarrow> string list" where
  "Split [] sep = [[]]"
| "Split (c # s) sep =
     (if c = sep then [] # Split s sep
      else (case Split s sep of [] \<Rightarrow> [[c]] | seg # segs \<Rightarrow> (c # seg) # segs))"

text \<open>
  \<^verbatim>\<open>func (em *eventMessage) Message() []byte\<close>: the three guarded writes to the
  buffer, then the closing newline.
\<close>

definition Message :: "eventMessage \<Rightarrow> string" where
  "Message em =
     (if Id' em > 0 then ''id: '' @ decimal (Id' em) @ [newline] else []) @
     (if length (Event em) > 0
      then ''event: '' @ Replace (Event em) newline [] @ [newline] else []) @
     (if length (Data em) > 0
      then concat (map (\<lambda>line. ''data: '' @ line @ [newline]) (Split (Data em) newline))
      else []) @
     [newline]"

text \<open>
  The specification's reading of a frame, to compare \<open>Message\<close> with: the field lines
  in the order id, event, data, each present only when its field is; the value a decimal
  numeral denotes; and the text that segments joined by a separator give back.
\<close>

definition spec_frame_lines :: "eventMessage \<Rightarrow> string list" where
  "spec_frame_lines em =
     (if Id' em = 0 then [] else [''id: '' @ decimal (Id' em)]) @
     (if Event em = [] then [] else [''event: '' @ filter (\<lambda>c. c \<noteq> newline) (Event em)]) @
     (if Data em = [] then [] else map (\<lambda>seg. ''data: '' @ seg) (Split (Data em) newline))"

definition digit_value :: "char \<Rightarrow> nat" where
  "digit_value c = of_char c - 48"

definition spec_decimal_value :: "string \<Rightarrow> nat" where
  "spec_decimal_value s = foldl (\<lambda>v c. 10 * v + digit_value c) 0 s"

fun spec_join :: "string list \<Rightarrow> char \<Rightarrow> string" where
  "spec_join [] sep = []"
| "spec_join [seg] sep = seg"
| "spec_join (seg # segs) sep = seg @ sep # spec_join segs sep"

subsection \<open>Building: \<^verbatim>\<open>newEventMessage\<close>\<close>

text \<open>
  \<^verbatim>\<open>json.Decoder.Decode(&em)\<close> belongs to the Go standard library. The input
  stream is modelled by what successive calls of it do: each top-level value of the stream
  is either an object the decoder accepts for \<^verbatim>\<open>eventMessage\<close> or a value it
  rejects (a syntax error, or a value of the wrong type, such as an id that is negative,
  fractional or too large for \<^verbatim>\<open>uint\<close>), and the end of the stream is
  \<^verbatim>\<open>io.EOF\<close>. For an accepted object, a field is \<open>Some v\<close> when the decoder
  stores \<open>v\<close> into the struct and \<open>None\<close> when it leaves the struct's field
  untouched (the key does not occur in the object, or its value is \<^verbatim>\<open>null\<close>).
\<close>

record json_object =
  id_field :: "nat option"
  event_field :: "string option"
  data_field :: "string option"

datatype json_value = Object json_object | Malformed

datatype error = DecodeError | ConnectError

text \<open>One successful \<^verbatim>\<open>dec.Decode(&em)\<close>: the fields present are stored.\<close>

definition Decode :: "json_object \<Rightarrow> eventMessage \<Rightarrow> eventMessage" where
  "Decode obj em =
     em\<lparr>Id' := (case id_field obj of None \<Rightarrow> Id' em | Some v \<Rightarrow> v),
        Event := (case event_field obj of None \<Rightarrow> Event em | Some v \<Rightarrow> v),
        Data := (case data_field obj of None \<Rightarrow> Data em | Some v \<Rightarrow> v)\<rparr>"

text \<open>
  The \<^verbatim>\<open>for\<close> loop of \<^verbatim>\<open>newEventMessage\<close>: it breaks at
  \<^verbatim>\<open>io.EOF\<close> and returns at any other error.
\<close>

fun decode_loop :: "json_value list \<Rightarrow> eventMessage \<Rightarrow> error + eventMessage" where
  "decode_loop [] em = Inr em"
| "decode_loop (Malformed # stream) em = Inl DecodeError"
| "decode_loop (Object obj # stream) em = decode_loop stream (Decode obj em)"

definition newEventMessage :: "json_value list \<Rightarrow> string \<Rightarrow> error + eventMessage" where
  "newEventMessage messageStream channel =
     (case decode_loop messageStream zero_eventMessage of
        Inl err \<Rightarrow> Inl err
      | Inr em \<Rightarrow>
          if channel = [] then Inr (em\<lparr>Channel := ''default''\<rparr>)
          else Inr (em\<lparr>Channel := channel\<rparr>))"

subsection \<open>Settings\<close>

text \<open>
  The fields of \<^verbatim>\<open>Settings\<close> that the hub and the consumers read.
  \<^verbatim>\<open>Timeout\<close> is a \<^verbatim>\<open>time.Duration\<close>, a count of nanoseconds.
  \<^verbatim>\<open>New\<close> replaces a nil pointer by the zero \<^verbatim>\<open>Settings\<close>, so the
  getters are never called on nil.
\<close>

record Settings =
  Timeout :: int
  CorsAllowOrigin :: string
  CorsAllowMethod :: "string list"

definition zero_Settings :: Settings where
  "zero_Settings = \<lparr>Timeout = 0, CorsAllowOrigin = [], CorsAllowMethod = []\<rparr>"



definition GetCorsAllowOrigin :: "Settings \<Rightarrow> string" where
  "GetCorsAllowOrigin s = (if CorsAllowOrigin s = [] then ''127.0.0.1'' else CorsAllowOrigin s)"

text \<open>\<^verbatim>\<open>strings.Join\<close> and \<^verbatim>\<open>bytes.Join\<close>.\<close>

fun Join_strings :: "string list \<Rightarrow> string \<Rightarrow> string" where
  "Join_strings [] sep = []"
| "Join_strings [s] sep = s"
| "Join_strings (s # rest) sep = s @ sep @ Join_strings rest sep"

definition GetCorsAllowMethod :: "Settings \<Rightarrow> string" where
  "GetCorsAllowMethod s =
     (if length (CorsAllowMethod s) = 0 then ''GET'' else Join_strings (CorsAllowMethod s) '', '')"

subsection \<open>Connections, consumers and the hub's state\<close>

text \<open>
  A \<^verbatim>\<open>net.Conn\<close> as the package uses it: whether \<^verbatim>\<open>Close\<close> was called
  on it, the write deadline last set, and the byte strings written with success, each
  with the deadline in force when it was written.
\<close>

record conn =
  closed :: bool
  write_deadline :: "int option"
  written :: "(int option \<times> string) list"

definition conn_write :: "string \<Rightarrow> conn \<Rightarrow> conn" where
  "conn_write bytes c = c\<lparr>written := written c @ [(write_deadline c, bytes)]\<rparr>"

text \<open>
  What \<^verbatim>\<open>connection.Write\<close> returns: no error; an error that is a
  \<^verbatim>\<open>net.Error\<close>, with the value of its \<^verbatim>\<open>Timeout()\<close>; or an error that
  is not a \<^verbatim>\<open>net.Error\<close>.
\<close>

datatype write_error = NetError bool | OtherError

datatype write_result = WriteOk | WriteErr write_error

text \<open>
  The consumer's \<^verbatim>\<open>inbox\<close> is an unbuffered channel. A send that must not block
  sees one of three states: the worker is parked in its receive, no receiver is parked, or
  the channel has been closed.
\<close>

datatype slot = Parked | Busy | Closed

text \<open>
  The struct \<^verbatim>\<open>consumer\<close>. \<open>delivered\<close> is not a field of the struct: it
  records the messages that went through the inbox, oldest first. A \<^verbatim>\<open>*consumer\<close>
  is an address \<open>cid\<close> into the store of consumers, since the dispatcher compares
  consumers by pointer.
\<close>

record consumer =
  connection :: conn
  inbox :: slot
  delivered :: "eventMessage list"
  channel :: string
  expired :: bool

type_synonym cid = nat

datatype chan = MessageRouter | ExpireConsumer | AddConsumer | CloseChannel | StopApplication

text \<open>
  The struct \<^verbatim>\<open>eventSource\<close>: the map \<^verbatim>\<open>consumers\<close> as an association
  list (Go leaves the order in which a \<^verbatim>\<open>range\<close> visits a map open; the order of
  the list is the order of one such visit), the store the consumer pointers point into,
  the request channels that have been closed, and the settings.
\<close>

record eventSource =
  consumers :: "(string \<times> cid list) list"
  heap :: "cid \<Rightarrow> consumer"
  closed_chans :: "chan list"
  settings :: Settings

definition globalChannel :: string where
  "globalChannel = ''all''"

text \<open>The run-time panics of Go's channel operations.\<close>

datatype panic = SendOnClosedChannel | CloseOfClosedChannel

subsection \<open>The cases of \<^verbatim>\<open>actionDispatcher\<close>\<close>

text \<open>
  Lines 280 to 283 and 292 to 295: \<^verbatim>\<open>select { case cr.inbox <- em: default: }\<close>.
  A send on a closed channel panics, also inside a \<^verbatim>\<open>select\<close> with a default.
\<close>

definition send_nonblocking ::
  "eventMessage \<Rightarrow> cid \<Rightarrow> (cid \<Rightarrow> consumer) \<Rightarrow> panic + (cid \<Rightarrow> consumer)" where
  "send_nonblocking em c h =
     (case inbox (h c) of
        Closed \<Rightarrow> Inl SendOnClosedChannel
      | Parked \<Rightarrow> Inr (h(c := (h c)\<lparr>inbox := Busy, delivered := delivered (h c) @ [em]\<rparr>))
      | Busy \<Rightarrow> Inr h)"

text \<open>The loop over one topic's consumers (lines 278 to 285 and 290 to 297).\<close>

fun deliver ::
  "eventMessage \<Rightarrow> cid list \<Rightarrow> (cid \<Rightarrow> consumer) \<Rightarrow> panic + (cid \<Rightarrow> consumer)" where
  "deliver em [] h = Inr h"
| "deliver em (c # cs) h =
     (if \<not> expired (h c)
      then (case send_nonblocking em c h of Inl p \<Rightarrow> Inl p | Inr h' \<Rightarrow> deliver em cs h')
      else deliver em cs h)"

text \<open>The loop over every topic (lines 289 to 298).\<close>

fun deliver_all ::
  "eventMessage \<Rightarrow> (string \<times> cid list) list \<Rightarrow> (cid \<Rightarrow> consumer)
     \<Rightarrow> panic + (cid \<Rightarrow> consumer)" where
  "deliver_all em [] h = Inr h"
| "deliver_all em ((name, cs) # rest) h =
     (case deliver em cs h of Inl p \<Rightarrow> Inl p | Inr h' \<Rightarrow> deliver_all em rest h')"

text \<open>\<^verbatim>\<open>case em := <-es.messageRouter\<close> (lines 274 to 299).\<close>

definition recv_messageRouter :: "eventMessage \<Rightarrow> eventSource \<Rightarrow> panic + eventSource" where
  "recv_messageRouter em es =
     (if Channel em = globalChannel
      then (case deliver_all em (consumers es) (heap es) of
              Inl p \<Rightarrow> Inl p | Inr h \<Rightarrow> Inr (es\<lparr>heap := h\<rparr>))
      else (case map_of (consumers es) (Channel em) of
              None \<Rightarrow> Inr es
            | Some cs \<Rightarrow>
                (case deliver em cs (heap es) of
                   Inl p \<Rightarrow> Inl p | Inr h \<Rightarrow> Inr (es\<lparr>heap := h\<rparr>))))"

text \<open>\<^verbatim>\<open>close(cr.inbox)\<close>: closing a closed channel panics.\<close>

definition close_inbox :: "cid \<Rightarrow> (cid \<Rightarrow> consumer) \<Rightarrow> panic + (cid \<Rightarrow> consumer)" where
  "close_inbox c h =
     (if inbox (h c) = Closed then Inl CloseOfClosedChannel
      else Inr (h(c := (h c)\<lparr>inbox := Closed\<rparr>)))"

fun close_inboxes :: "cid list \<Rightarrow> (cid \<Rightarrow> consumer) \<Rightarrow> panic + (cid \<Rightarrow> consumer)" where
  "close_inboxes [] h = Inr h"
| "close_inboxes (c # cs) h =
     (case close_inbox c h of Inl p \<Rightarrow> Inl p | Inr h' \<Rightarrow> close_inboxes cs h')"

text \<open>
  The loop of lines 314 to 319 over the entries the map had when the loop began: each
  entry's inboxes are closed and the entry is deleted.
\<close>

fun close_channels :: "(string \<times> cid list) list \<Rightarrow> eventSource \<Rightarrow> panic + eventSource" where
  "close_channels [] es = Inr es"
| "close_channels ((channelName, cs) # rest) es =
     (case close_inboxes cs (heap es) of
        Inl p \<Rightarrow> Inl p
      | Inr h \<Rightarrow>
          close_channels rest
            (es\<lparr>heap := h, consumers := AList.delete channelName (consumers es)\<rparr>))"

text \<open>\<^verbatim>\<open>case channel := <-es.closeChannel\<close> (lines 302 to 320).\<close>

definition recv_closeChannel :: "string \<Rightarrow> eventSource \<Rightarrow> panic + eventSource" where
  "recv_closeChannel name es =
     (if name = globalChannel then close_channels (consumers es) es
      else (case map_of (consumers es) name of
              None \<Rightarrow> Inr es
            | Some cs \<Rightarrow>
                (case close_inboxes cs (heap es) of
                   Inl p \<Rightarrow> Inl p
                 | Inr h \<Rightarrow>
                     Inr (es\<lparr>heap := h, consumers := AList.delete name (consumers es)\<rparr>))))"

text \<open>
  \<^verbatim>\<open>case cr := <-es.addConsumer\<close> (lines 334 to 336): indexing the map with a
  missing key gives the nil slice.
\<close>

definition recv_addConsumer :: "cid \<Rightarrow> eventSource \<Rightarrow> eventSource" where
  "recv_addConsumer cr es =
     es\<lparr>consumers :=
          AList.update (channel (heap es cr))
            ((case map_of (consumers es) (channel (heap es cr)) of
                None \<Rightarrow> [] | Some cs \<Rightarrow> cs) @ [cr])
            (consumers es)\<rparr>"

text \<open>\<^verbatim>\<open>case expiredConsumer := <-es.expireConsumer\<close> (lines 339 to 352).\<close>

definition recv_expireConsumer :: "cid \<Rightarrow> eventSource \<Rightarrow> panic + eventSource" where
  "recv_expireConsumer expiredConsumer es =
     (case map_of (consumers es) (channel (heap es expiredConsumer)) of
        None \<Rightarrow> Inr es
      | Some cs \<Rightarrow>
          (let consumerSlice = filter (\<lambda>cr. cr \<noteq> expiredConsumer) cs;
               es' = es\<lparr>consumers :=
                        AList.update (channel (heap es expiredConsumer)) consumerSlice
                          (consumers es)\<rparr>
           in case close_inbox expiredConsumer (heap es') of
                Inl p \<Rightarrow> Inl p
              | Inr h \<Rightarrow> Inr (es'\<lparr>heap := h\<rparr>)))"

subsection \<open>The consumer's worker: \<^verbatim>\<open>inboxDispatcher\<close>\<close>

text \<open>
  What travels on the hub's five channels: an event message, a topic name to close, the
  stop signal, a consumer to add, a consumer to expire.
\<close>

datatype request = Publish eventMessage | CloseTopic string | Stop | Join cid | Expire cid





subsection \<open>Subscribing: \<^verbatim>\<open>newConsumer\<close> and \<^verbatim>\<open>subscribeHandler\<close>\<close>

text \<open>The bytes \<^verbatim>\<open>headersData\<close> of \<^verbatim>\<open>setupConnection\<close>.\<close>

definition headersData :: "Settings \<Rightarrow> string" where
  "headersData st =
     Join_strings
       [''HTTP/1.1 200 OK'',
        ''Content-Type: text/event-stream'',
        ''Cache-Control: no-cache'',
        ''Connection: keep-alive'',
        ''Access-Control-Allow-Origin: '' @ GetCorsAllowOrigin st,
        ''Access-Control-Allow-Method: '' @ GetCorsAllowMethod st]
       [newline]
     @ [newline, newline]"

text \<open>
  \<^verbatim>\<open>setupConnection\<close>, given what the write of the headers returns: the error it
  returns, if any, and the consumer with its connection written to or closed.
\<close>

definition setupConnection ::
  "Settings \<Rightarrow> write_result \<Rightarrow> consumer \<Rightarrow> write_error option \<times> consumer" where
  "setupConnection st res cr =
     (case res of
        WriteOk \<Rightarrow> (None, cr\<lparr>connection := conn_write (headersData st) (connection cr)\<rparr>)
      | WriteErr err \<Rightarrow> (Some err, cr\<lparr>connection := (connection cr)\<lparr>closed := True\<rparr>\<rparr>))"

text \<open>
  What \<^verbatim>\<open>net/http\<close> hands the handler of one GET request: the client's
  connection, whether \<^verbatim>\<open>Hijack\<close> returns an error, and what the write of the
  headers on the hijacked connection returns.
\<close>

record http_exchange =
  client :: conn
  hijack_fails :: bool
  preamble_write :: write_result

text \<open>
  \<^verbatim>\<open>newConsumer\<close>: the consumer or the error, and the client's connection as the
  call leaves it. When \<^verbatim>\<open>Hijack\<close> fails the function returns at line 29 and has
  done nothing to the connection. A new inbox has no receiver parked yet. On success the
  caller's share of line 44, starting the worker, is in \<open>subscribeHandler\<close> below.
\<close>

definition newConsumer ::
  "Settings \<Rightarrow> http_exchange \<Rightarrow> string \<Rightarrow> (error + consumer) \<times> conn" where
  "newConsumer st x name =
     (if hijack_fails x then (Inl ConnectError, client x)
      else (let cr = \<lparr>connection = client x, inbox = Busy, delivered = [],
                      channel = name, expired = False\<rparr>
            in case setupConnection st (preamble_write x) cr of
                 (Some err, cr') \<Rightarrow> (Inl ConnectError, connection cr')
               | (None, cr') \<Rightarrow> (Inr cr', connection cr')))"

subsection \<open>The queries\<close>

text \<open>
  \<^verbatim>\<open>ChannelExists\<close>, \<^verbatim>\<open>ConsumerCount\<close>, \<^verbatim>\<open>ConsumerCountAll\<close> and
  \<^verbatim>\<open>Channels\<close> (lines 93 to 123) read \<^verbatim>\<open>es.consumers\<close> directly.
  \<^verbatim>\<open>sort.Strings\<close> sorts by bytes, which is the lexicographic order of
  \<open>string\<close>.
\<close>

definition ChannelExists :: "eventSource \<Rightarrow> string \<Rightarrow> bool" where
  "ChannelExists es name = (case map_of (consumers es) name of None \<Rightarrow> False | Some cs \<Rightarrow> True)"

definition ConsumerCount :: "eventSource \<Rightarrow> string \<Rightarrow> nat" where
  "ConsumerCount es name =
     (case map_of (consumers es) name of None \<Rightarrow> 0 | Some cs \<Rightarrow> length cs)"

definition ConsumerCountAll :: "eventSource \<Rightarrow> nat" where
  "ConsumerCountAll es = foldl (\<lambda>consumerCount entry. consumerCount + length (snd entry)) 0 (consumers es)"

definition Channels :: "eventSource \<Rightarrow> string list" where
  "Channels es = sort (map fst (consumers es))"

datatype query = AskChannelExists string | AskConsumerCount string | AskConsumerCountAll | AskChannels

datatype answer = Exists bool | Count nat | Names "string list"

fun reply :: "query \<Rightarrow> eventSource \<Rightarrow> answer" where
  "reply (AskChannelExists name) es = Exists (ChannelExists es name)"
| "reply (AskConsumerCount name) es = Count (ConsumerCount es name)"
| "reply AskConsumerCountAll es = Count (ConsumerCountAll es)"
| "reply AskChannels es = Names (Channels es)"

subsection \<open>The goroutines\<close>

text \<open>
  The dispatcher runs in the goroutine that \<^verbatim>\<open>New\<close> starts; every other function
  of the package runs in the goroutine of its caller (an HTTP handler, a user of the Go
  interface, a consumer's worker). The dispatcher stands at its \<^verbatim>\<open>select\<close>
  (line 271), at the send of line 325, or it has returned or panicked. A caller that has
  reached one of the package's sends on the five channels (lines 80, 89, 128, 134, 147 and
  169) is parked there with its request until a receiver takes it.
  \<open>accesses\<close> records who read or wrote the map \<^verbatim>\<open>es.consumers\<close>, and
  \<open>answers\<close> what the queries returned.
\<close>

datatype goroutine = Dispatcher | Caller nat

datatype location = Select | StopSend | Returned | Panicked panic

datatype access = MapRead | MapWrite

record system =
  hub :: eventSource
  dispatcher_at :: location
  parked :: "request option list"
  workers :: "cid list"
  next_consumer :: cid
  accesses :: "(goroutine \<times> access) list"
  answers :: "answer list"

text \<open>
  \<^verbatim>\<open>New\<close>: the hub with an empty map and the dispatcher at its
  \<^verbatim>\<open>select\<close>.
\<close>

definition New :: "Settings option \<Rightarrow> (cid \<Rightarrow> consumer) \<Rightarrow> system" where
  "New st h =
     \<lparr>hub = \<lparr>consumers = [], heap = h, closed_chans = [],
            settings = (case st of None \<Rightarrow> zero_Settings | Some s \<Rightarrow> s)\<rparr>,
      dispatcher_at = Select, parked = [], workers = [], next_consumer = 0,
      accesses = [], answers = []\<rparr>"

fun chan_of :: "request \<Rightarrow> chan" where
  "chan_of (Publish em) = MessageRouter"
| "chan_of (CloseTopic name) = CloseChannel"
| "chan_of Stop = StopApplication"
| "chan_of (Join cr) = AddConsumer"
| "chan_of (Expire cr) = ExpireConsumer"

text \<open>What the \<^verbatim>\<open>select\<close> case of a request does with the map.\<close>

fun map_accesses :: "request \<Rightarrow> access list" where
  "map_accesses (Publish em) = [MapRead]"
| "map_accesses (CloseTopic name) = [MapRead, MapWrite]"
| "map_accesses Stop = []"
| "map_accesses (Join cr) = [MapRead, MapWrite]"
| "map_accesses (Expire cr) = [MapRead, MapWrite]"

definition continue_with :: "panic + eventSource \<Rightarrow> system \<Rightarrow> system" where
  "continue_with r sys =
     (case r of Inl p \<Rightarrow> sys\<lparr>dispatcher_at := Panicked p\<rparr> | Inr e \<Rightarrow> sys\<lparr>hub := e\<rparr>)"

text \<open>
  One iteration of the loop of \<^verbatim>\<open>actionDispatcher\<close> for the request its
  \<^verbatim>\<open>select\<close> has received. After a stop request the dispatcher is at line 325,
  \<^verbatim>\<open>es.closeChannel <- globalChannel\<close>; after any other it is back at the
  \<^verbatim>\<open>select\<close>, unless it panicked.
\<close>

fun actionDispatcher :: "request \<Rightarrow> system \<Rightarrow> system" where
  "actionDispatcher (Publish em) sys =
     continue_with (recv_messageRouter em (hub sys))
       (sys\<lparr>accesses := accesses sys @ map (Pair Dispatcher) (map_accesses (Publish em))\<rparr>)"
| "actionDispatcher (CloseTopic name) sys =
     continue_with (recv_closeChannel name (hub sys))
       (sys\<lparr>accesses := accesses sys @ map (Pair Dispatcher) (map_accesses (CloseTopic name))\<rparr>)"
| "actionDispatcher Stop sys = sys\<lparr>dispatcher_at := StopSend\<rparr>"
| "actionDispatcher (Join cr) sys =
     continue_with (Inr (recv_addConsumer cr (hub sys)))
       (sys\<lparr>accesses := accesses sys @ map (Pair Dispatcher) (map_accesses (Join cr))\<rparr>)"
| "actionDispatcher (Expire cr) sys =
     continue_with (recv_expireConsumer cr (hub sys))
       (sys\<lparr>accesses := accesses sys @ map (Pair Dispatcher) (map_accesses (Expire cr))\<rparr>)"

text \<open>Lines 326 to 331, what follows the send of line 325.\<close>

definition after_StopSend :: "system \<Rightarrow> system" where
  "after_StopSend sys =
     sys\<lparr>hub := (hub sys)\<lparr>closed_chans :=
                  [MessageRouter, AddConsumer, ExpireConsumer, CloseChannel, StopApplication]\<rparr>,
         dispatcher_at := Returned\<rparr>"

text \<open>
  \<^verbatim>\<open>subscribeHandler\<close> (lines 154 to 171), run by the goroutine of the HTTP
  request: the system it leaves, the status it passed to \<^verbatim>\<open>http.Error\<close> if it
  did, and the client's connection as it leaves it. On success the new consumer is stored
  at a fresh address, its worker is started and the handler parks in the send of line 169.
\<close>

record http_reply =
  http_error :: "nat option"
  conn_after :: conn

definition subscribeHandler :: "string \<Rightarrow> http_exchange \<Rightarrow> system \<Rightarrow> system \<times> http_reply" where
  "subscribeHandler name x sys =
     (if length name > 0
      then (if name = globalChannel
            then (sys, \<lparr>http_error = Some 400, conn_after = client x\<rparr>)
            else (case newConsumer (settings (hub sys)) x name of
                    (Inl err, c) \<Rightarrow> (sys, \<lparr>http_error = Some 500, conn_after = c\<rparr>)
                  | (Inr cr, c) \<Rightarrow>
                      (sys\<lparr>hub := (hub sys)\<lparr>heap := (heap (hub sys))(next_consumer sys := cr)\<rparr>,
                           workers := workers sys @ [next_consumer sys],
                           next_consumer := Suc (next_consumer sys),
                           parked := parked sys @ [Some (Join (next_consumer sys))]\<rparr>,
                       \<lparr>http_error = None, conn_after = c\<rparr>)))
      else (sys, \<lparr>http_error = None, conn_after = client x\<rparr>))"

text \<open>
  \<^verbatim>\<open>SendMessage\<close> (lines 83 to 90): the request it sends on
  \<^verbatim>\<open>messageRouter\<close>, or none when the message cannot be built.
\<close>

definition SendMessage :: "json_value list \<Rightarrow> string \<Rightarrow> request option" where
  "SendMessage messageStream name =
     (case newEventMessage messageStream name of
        Inl err \<Rightarrow> None
      | Inr em \<Rightarrow> Some (Publish em))"

text \<open>
  Channel operations. All five channels are unbuffered, so a send completes only in a
  rendezvous with another goroutine that is receiving on the same channel. The only
  receives on the five channels are the cases of the dispatcher's \<^verbatim>\<open>select\<close>;
  the only sends are those of the parked callers and the dispatcher's own at line 325.
\<close>

fun sending :: "system \<Rightarrow> goroutine \<Rightarrow> (chan \<times> request) option" where
  "sending sys Dispatcher =
     (if dispatcher_at sys = StopSend then Some (CloseChannel, CloseTopic globalChannel) else None)"
| "sending sys (Caller i) =
     (if i < length (parked sys)
      then (case parked sys ! i of None \<Rightarrow> None | Some r \<Rightarrow> Some (chan_of r, r))
      else None)"

fun receiving :: "system \<Rightarrow> goroutine \<Rightarrow> chan list" where
  "receiving sys Dispatcher =
     (if dispatcher_at sys = Select
      then [MessageRouter, CloseChannel, StopApplication, AddConsumer, ExpireConsumer]
      else [])"
| "receiving sys (Caller i) = []"

fun sent :: "goroutine \<Rightarrow> system \<Rightarrow> system" where
  "sent Dispatcher sys = after_StopSend sys"
| "sent (Caller i) sys = sys\<lparr>parked := (parked sys)[i := None]\<rparr>"

fun received :: "goroutine \<Rightarrow> request \<Rightarrow> system \<Rightarrow> system" where
  "received Dispatcher r sys = actionDispatcher r sys"
| "received (Caller i) r sys = sys"

text \<open>
  The requests the package's interface sends from the caller's goroutine:
  \<^verbatim>\<open>SendMessage\<close>, \<^verbatim>\<open>Close\<close>, \<^verbatim>\<open>CloseAll\<close> and
  \<^verbatim>\<open>Stop\<close>. A join is sent by \<open>subscribeHandler\<close> only, and an expiry by
  a consumer's worker only.
\<close>

fun api :: "request \<Rightarrow> bool" where
  "api (Publish em) = True"
| "api (CloseTopic name) = True"
| "api Stop = True"
| "api (Join cr) = False"
| "api (Expire cr) = False"

text \<open>
  The steps of the system. \<open>Call r\<close>: a goroutine reaches the send of an interface
  request \<open>r\<close> and parks (a send on a closed channel panics in the caller and leaves
  the system as it is). \<open>Ask q\<close>: a goroutine runs a query. \<open>Subscribe\<close>: a
  goroutine runs \<open>subscribeHandler\<close>. \<open>Park c\<close>: the worker of consumer \<open>c\<close>
  comes to the receive of its inbox (line 74). \<open>Report c\<close>: the worker of \<open>c\<close>, having
  received a message, finds its write failed for good, sets the flag, closes the connection
  and parks in the send of line 80. \<open>Sync s r\<close>: the rendezvous of sender \<open>s\<close> with
  receiver \<open>r\<close>; it happens only between two different goroutines, the first sending
  on a channel the second is receiving on. A goroutine other than the dispatcher is named
  by the index its step gets in \<open>parked\<close>. A run is a sequence of steps, and every
  interleaving of the goroutines is some run.
\<close>

datatype event =
    Call request
  | Ask query
  | Subscribe string http_exchange
  | Park cid
  | Report cid
  | Sync goroutine goroutine

fun exec :: "event \<Rightarrow> system \<Rightarrow> system" where
  "exec (Call r) sys =
     (if api r \<and> chan_of r \<notin> set (closed_chans (hub sys))
      then sys\<lparr>parked := parked sys @ [Some r]\<rparr>
      else sys)"
| "exec (Ask q) sys =
     sys\<lparr>parked := parked sys @ [None],
         accesses := accesses sys @ [(Caller (length (parked sys)), MapRead)],
         answers := answers sys @ [reply q (hub sys)]\<rparr>"
| "exec (Subscribe name x) sys = fst (subscribeHandler name x sys)"
| "exec (Park c) sys =
     (if c \<in> set (workers sys) \<and> inbox (heap (hub sys) c) = Busy
      then sys\<lparr>hub := (hub sys)\<lparr>heap := (heap (hub sys))
                          (c := (heap (hub sys) c)\<lparr>inbox := Parked\<rparr>)\<rparr>\<rparr>
      else sys)"
| "exec (Report c) sys =
     (if c \<in> set (workers sys) \<and> delivered (heap (hub sys) c) \<noteq> []
         \<and> \<not> expired (heap (hub sys) c) \<and> ExpireConsumer \<notin> set (closed_chans (hub sys))
      then sys\<lparr>hub := (hub sys)\<lparr>heap := (heap (hub sys))
                          (c := (heap (hub sys) c)
                             \<lparr>expired := True,
                              connection := (connection (heap (hub sys) c))\<lparr>closed := True\<rparr>\<rparr>)\<rparr>,
               parked := parked sys @ [Some (Expire c)]\<rparr>
      else sys)"
| "exec (Sync s r) sys =
     (case sending sys s of
        None \<Rightarrow> sys
      | Some (ch, v) \<Rightarrow>
          if s \<noteq> r \<and> ch \<in> set (receiving sys r) \<and> ch \<notin> set (closed_chans (hub sys))
          then received r v (sent s sys)
          else sys)"

fun run :: "event list \<Rightarrow> system \<Rightarrow> system" where
  "run [] sys = sys"
| "run (e # evs) sys = run evs (exec e sys)"

subsection \<open>The specification's notions\<close>

text \<open>
  The consumers a publish request is for: every consumer of every topic for the broadcast
  name, the named topic's list otherwise, nobody when the topic has no entry. A handoff
  passes the message to the worker, which is then no longer parked.
\<close>

definition spec_targets :: "eventMessage \<Rightarrow> eventSource \<Rightarrow> cid list" where
  "spec_targets em es =
     (if Channel em = globalChannel then concat (map snd (consumers es))
      else (case map_of (consumers es) (Channel em) of None \<Rightarrow> [] | Some cs \<Rightarrow> cs))"

definition spec_handoff :: "eventMessage \<Rightarrow> consumer \<Rightarrow> consumer" where
  "spec_handoff em cr = cr\<lparr>inbox := Busy, delivered := delivered cr @ [em]\<rparr>"

text \<open>
  The invariant of the hub's state: the map has one entry for a name, a consumer stands in
  one list and once (the data model's invariant), the inbox of a listed consumer has not
  been closed, and a consumer is listed under the topic it joined.
\<close>

definition members :: "eventSource \<Rightarrow> cid list" where
  "members es = concat (map snd (consumers es))"

definition wf :: "eventSource \<Rightarrow> bool" where
  "wf es \<longleftrightarrow>
     distinct (map fst (consumers es)) \<and> distinct (members es) \<and>
     (\<forall>c \<in> set (members es). inbox (heap es c) \<noteq> Closed) \<and>
     (\<forall>(name, cs) \<in> set (consumers es). \<forall>c \<in> set cs. channel (heap es c) = name)"

text \<open>
  The invariant of the whole system: the hub's invariant; every consumer in the map and
  every worker was created by a subscribe; a consumer whose join is parked has a worker, is
  not yet in the map, has an open inbox through which nothing went yet, and is parked once;
  a consumer whose expiry is parked has a worker that received a message.
\<close>

definition joins_parked_ok :: "system \<Rightarrow> bool" where
  "joins_parked_ok sys \<longleftrightarrow>
     (\<forall>i < length (parked sys). \<forall>c. parked sys ! i = Some (Join c) \<longrightarrow>
        c \<in> set (workers sys) \<and> c \<notin> set (members (hub sys)) \<and>
        inbox (heap (hub sys) c) \<noteq> Closed \<and> delivered (heap (hub sys) c) = [] \<and>
        (\<forall>j < length (parked sys). parked sys ! j = Some (Join c) \<longrightarrow> j = i))"

definition expiries_parked_ok :: "system \<Rightarrow> bool" where
  "expiries_parked_ok sys \<longleftrightarrow>
     (\<forall>i < length (parked sys). \<forall>c. parked sys ! i = Some (Expire c) \<longrightarrow>
        c \<in> set (workers sys) \<and> delivered (heap (hub sys) c) \<noteq> [])"

definition sys_inv :: "system \<Rightarrow> bool" where
  "sys_inv sys \<longleftrightarrow>
     wf (hub sys) \<and>
     (\<forall>c \<in> set (members (hub sys)). c < next_consumer sys) \<and>
     (\<forall>c \<in> set (workers sys). c < next_consumer sys) \<and>
     joins_parked_ok sys \<and> expiries_parked_ok sys"






subsection \<open>Example states\<close>

text \<open>
  A hub with the topics news (consumers 0 and 1, the second one busy) and sport
  (consumer 2), and the system that runs it.
\<close>

definition example_conn :: conn where
  "example_conn = \<lparr>closed = False, write_deadline = None, written = []\<rparr>"

definition example_consumer :: "string \<Rightarrow> slot \<Rightarrow> consumer" where
  "example_consumer name s =
     \<lparr>connection = example_conn, inbox = s, delivered = [], channel = name, expired = False\<rparr>"

definition example_hub :: eventSource where
  "example_hub =
     \<lparr>consumers = [(''news'', [0, 1]), (''sport'', [2])],
      heap = (\<lambda>c. if c = 0 then example_consumer ''news'' Parked
                   else if c = 1 then example_consumer ''news'' Busy
                   else example_consumer ''sport'' Parked),
      closed_chans = [],
      settings = zero_Settings\<rparr>"

definition example_system :: system where
  "example_system =
     \<lparr>hub = example_hub, dispatcher_at = Select, parked = [], workers = [0, 1, 2],
      next_consumer = 3, accesses = [], answers = []\<rparr>"

definition new_system :: system where
  "new_system = New None (\<lambda>c. example_consumer [] Busy)"

definition example_exchange :: http_exchange where
  "example_exchange = \<lparr>client = example_conn, hijack_fails = False, preamble_write = WriteOk\<rparr>"

definition example_message :: "string \<Rightarrow> eventMessage" where
  "example_message name = \<lparr>Id' = 1, Event = ''foo'', Data = ''bar'', Channel = name\<rparr>"

section \<open>Properties of the codec\<close>

subsection \<open>Decimal numerals\<close>

lemma digit_in: "d < 10 \<Longrightarrow> digits ! d \<in> set digits"
proof -
  assume "d < 10"
  then have "d < length digits" by (simp add: digits_def)
  then show ?thesis by (rule nth_mem)
qed

lemma digit_value_nth: "d < 10 \<Longrightarrow> digit_value (digits ! d) = d"
  unfolding digit_value_def digits_def
  by (simp add: numeral_eq_Suc less_Suc_eq; elim disjE; simp)

lemma decimal_digits: "set (decimal n) \<subseteq> set digits"
proof (induction n rule: decimal.induct)
  case (1 n)
  show ?case
  proof (cases "n < 10")
    case True
    then show ?thesis using digit_in [of n] by (simp add: decimal.simps [of n])
  next
    case False
    have "n mod 10 < 10" by simp
    then have "digits ! (n mod 10) \<in> set digits" by (rule digit_in)
    with False 1 show ?thesis by (simp add: decimal.simps [of n])
  qed
qed

lemma decimal_value: "spec_decimal_value (decimal n) = n"
proof (induction n rule: decimal.induct)
  case (1 n)
  show ?case
  proof (cases "n < 10")
    case True
    then show ?thesis
      by (simp add: decimal.simps [of n] spec_decimal_value_def digit_value_nth)
  next
    case False
    have m: "n mod 10 < 10" by simp
    from False 1 have "spec_decimal_value (decimal (n div 10)) = n div 10" by simp
    with False show ?thesis
      by (simp add: decimal.simps [of n] spec_decimal_value_def digit_value_nth [OF m])
  qed
qed

lemma newline_not_digit: "newline \<notin> set digits"
  by (simp add: newline_def digits_def)

lemma decimal_no_newline: "newline \<notin> set (decimal n)"
  using decimal_digits [of n] newline_not_digit by blast

subsection \<open>Replacing and splitting\<close>

lemma Replace_empty: "Replace s old [] = filter (\<lambda>c. c \<noteq> old) s"
  by (induction s) (simp_all add: Replace_def)

lemma Split_nonempty: "Split s sep \<noteq> []"
  by (induction s) (auto split: list.splits)

lemma Split_no_sep: "seg \<in> set (Split s sep) \<Longrightarrow> sep \<notin> set seg"
  by (induction s arbitrary: seg) (auto split: list.splits if_splits)

lemma Split_join: "spec_join (Split s sep) sep = s"
proof (induction s)
  case Nil
  show ?case by simp
next
  case (Cons c s)
  obtain seg segs where e: "Split s sep = seg # segs"
    using Split_nonempty [of s sep] by (cases "Split s sep") auto
  with Cons show ?case by (cases segs) auto
qed

lemma Split_length: "length (Split s sep) = Suc (length (filter (\<lambda>c. c = sep) s))"
  by (induction s) (auto split: list.splits simp: Split_nonempty)

lemma Split_line: "sep \<notin> set l \<Longrightarrow> Split (l @ sep # rest) sep = l # Split rest sep"
  by (induction l) (auto split: list.splits)

lemma Split_lines:
  "\<forall>l \<in> set ls. sep \<notin> set l \<Longrightarrow>
   Split (concat (map (\<lambda>l. l @ [sep]) ls) @ rest) sep = ls @ Split rest sep"
  by (induction ls) (simp_all add: Split_line)

subsection \<open>Frames\<close>

lemma prefix_no_newline:
  "newline \<notin> set ''id: ''" "newline \<notin> set ''event: ''" "newline \<notin> set ''data: ''"
  by (simp_all add: newline_def)

lemma frame_lines_proper:
  "l \<in> set (spec_frame_lines em) \<Longrightarrow> l \<noteq> [] \<and> newline \<notin> set l"
  using prefix_no_newline decimal_no_newline [of "Id' em"]
  by (auto simp: spec_frame_lines_def dest: Split_no_sep split: if_splits)

lemma Message_lines:
  "Message em = concat (map (\<lambda>l. l @ [newline]) (spec_frame_lines em)) @ [newline]"
  by (simp add: Message_def spec_frame_lines_def Replace_empty comp_def)

lemma Message_Split: "Split (Message em) newline = spec_frame_lines em @ [[], []]"
proof -
  have "\<forall>l \<in> set (spec_frame_lines em). newline \<notin> set l"
    using frame_lines_proper by blast
  then have "Split (concat (map (\<lambda>l. l @ [newline]) (spec_frame_lines em)) @ [newline]) newline
      = spec_frame_lines em @ Split [newline] newline"
    by (rule Split_lines)
  then show ?thesis by (simp add: Message_lines)
qed

lemma Message_blank_end:
  "\<exists>body. Message em = body @ [newline] \<and>
     (body = [] \<or> (\<exists>pre c. body = pre @ [c, newline] \<and> c \<noteq> newline))"
proof (cases "spec_frame_lines em" rule: rev_cases)
  case Nil
  then show ?thesis by (simp add: Message_lines)
next
  case (snoc ls l)
  then have "l \<in> set (spec_frame_lines em)" by simp
  then have l: "l \<noteq> [] \<and> newline \<notin> set l" by (rule frame_lines_proper)
  then obtain l' c where lc: "l = l' @ [c]" by (cases l rule: rev_cases) auto
  with l have "c \<noteq> newline" by auto
  moreover have "concat (map (\<lambda>l. l @ [newline]) (spec_frame_lines em))
      = (concat (map (\<lambda>l. l @ [newline]) ls) @ l') @ [c, newline]"
    by (simp add: snoc lc)
  ultimately show ?thesis unfolding Message_lines by blast
qed

subsection \<open>The decoding loop\<close>

lemma decode_loop_objects:
  "decode_loop (map Object objs) em =
     Inr \<lparr>Id' = last (Id' em # List.map_filter id_field objs),
          Event = last (Event em # List.map_filter event_field objs),
          Data = last (Data em # List.map_filter data_field objs),
          Channel = Channel em\<rparr>"
proof (induction objs arbitrary: em)
  case Nil
  show ?case by (simp add: map_filter_simps)
next
  case (Cons obj objs)
  show ?case
    by (simp add: Cons.IH Decode_def map_filter_simps split: option.splits)
qed

lemma map_filter_snoc:
  "List.map_filter f (xs @ [x]) =
     (case f x of None \<Rightarrow> List.map_filter f xs | Some y \<Rightarrow> List.map_filter f xs @ [y])"
  by (simp add: List.map_filter_def split: option.splits)

lemma decode_loop_Malformed:
  "Malformed \<in> set stream \<Longrightarrow> decode_loop stream em = Inl DecodeError"
  by (induction stream em rule: decode_loop.induct) auto

section \<open>Properties of the hub\<close>

lemma deliver_append:
  "deliver em (xs @ ys) h = (case deliver em xs h of Inl p \<Rightarrow> Inl p | Inr h' \<Rightarrow> deliver em ys h')"
  by (induction xs arbitrary: h) (auto split: sum.splits)

lemma deliver_all_concat: "deliver_all em al h = deliver em (concat (map snd al)) h"
  by (induction al arbitrary: h) (auto simp: deliver_append split: sum.splits)

lemma recv_messageRouter_targets:
  "recv_messageRouter em es =
     (case deliver em (spec_targets em es) (heap es) of
        Inl p \<Rightarrow> Inl p | Inr h \<Rightarrow> Inr (es\<lparr>heap := h\<rparr>))"
  by (simp add: recv_messageRouter_def spec_targets_def deliver_all_concat split: option.splits)

lemma deliver_result:
  "\<forall>c \<in> set cs. \<not> expired (h c) \<longrightarrow> inbox (h c) \<noteq> Closed \<Longrightarrow>
   deliver em cs h =
     Inr (\<lambda>c. if c \<in> set cs \<and> \<not> expired (h c) \<and> inbox (h c) = Parked
              then spec_handoff em (h c) else h c)"
proof (induction cs arbitrary: h)
  case Nil
  show ?case by simp
next
  case (Cons c cs)
  show ?case
  proof (cases "expired (h c)")
    case True
    with Cons.prems have "deliver em cs h =
        Inr (\<lambda>c. if c \<in> set cs \<and> \<not> expired (h c) \<and> inbox (h c) = Parked
              then spec_handoff em (h c) else h c)"
      by (intro Cons.IH) simp
    with True show ?thesis by (auto simp: fun_eq_iff)
  next
    case False
    with Cons.prems have isopen: "inbox (h c) \<noteq> Closed" by simp
    show ?thesis
    proof (cases "inbox (h c) = Parked")
      case True
      let ?h1 = "h(c := (h c)\<lparr>inbox := Busy, delivered := delivered (h c) @ [em]\<rparr>)"
      have "\<forall>c' \<in> set cs. \<not> expired (?h1 c') \<longrightarrow> inbox (?h1 c') \<noteq> Closed"
        using Cons.prems by simp
      then have "deliver em cs ?h1 =
        Inr (\<lambda>c. if c \<in> set cs \<and> \<not> expired (?h1 c) \<and> inbox (?h1 c) = Parked
              then spec_handoff em (?h1 c) else ?h1 c)"
        by (rule Cons.IH)
      with True False show ?thesis
        by (auto simp: send_nonblocking_def spec_handoff_def fun_eq_iff)
    next
      case notparked: False
      with isopen have busy: "inbox (h c) = Busy" by (cases "inbox (h c)") auto
      from Cons.prems have "deliver em cs h =
        Inr (\<lambda>c. if c \<in> set cs \<and> \<not> expired (h c) \<and> inbox (h c) = Parked
              then spec_handoff em (h c) else h c)"
        by (intro Cons.IH) simp
      with busy False show ?thesis
        by (auto simp: send_nonblocking_def fun_eq_iff)
    qed
  qed
qed

lemma send_nonblocking_frame:
  "send_nonblocking em c h = Inr h' \<Longrightarrow>
   expired (h' x) = expired (h x) \<and> channel (h' x) = channel (h x) \<and>
   connection (h' x) = connection (h x) \<and> (inbox (h' x) = Closed \<longleftrightarrow> inbox (h x) = Closed)"
  by (auto simp: send_nonblocking_def split: slot.splits if_splits)

lemma deliver_frame:
  "deliver em cs h = Inr h' \<Longrightarrow>
   expired (h' x) = expired (h x) \<and> channel (h' x) = channel (h x) \<and>
   connection (h' x) = connection (h x) \<and> (inbox (h' x) = Closed \<longleftrightarrow> inbox (h x) = Closed)"
proof (induction cs arbitrary: h)
  case Nil
  then show ?case by simp
next
  case (Cons c cs)
  show ?case
  proof (cases "expired (h c)")
    case True
    with Cons show ?thesis by simp
  next
    case False
    with Cons.prems obtain h1 where h1: "send_nonblocking em c h = Inr h1" "deliver em cs h1 = Inr h'"
      by (auto split: sum.splits)
    from Cons.IH [OF h1(2)] send_nonblocking_frame [OF h1(1), of x] show ?thesis by simp
  qed
qed

lemma deliver_panics:
  "\<exists>c \<in> set cs. \<not> expired (h c) \<and> inbox (h c) = Closed \<Longrightarrow>
   deliver em cs h = Inl SendOnClosedChannel"
proof (induction cs arbitrary: h)
  case Nil
  then show ?case by simp
next
  case (Cons c cs)
  show ?case
  proof (cases "\<not> expired (h c) \<and> inbox (h c) = Closed")
    case True
    then show ?thesis by (simp add: send_nonblocking_def)
  next
    case False
    with Cons.prems obtain x where x: "x \<in> set cs" "\<not> expired (h x)" "inbox (h x) = Closed"
      by auto
    show ?thesis
    proof (cases "expired (h c)")
      case True
      with x Cons.IH [of h] show ?thesis by auto
    next
      case unexpired: False
      with False have "inbox (h c) \<noteq> Closed" by simp
      then obtain h1 where h1: "send_nonblocking em c h = Inr h1"
        by (cases "inbox (h c)") (auto simp: send_nonblocking_def)
      from send_nonblocking_frame [OF h1, of x] x
      have "\<exists>c \<in> set cs. \<not> expired (h1 c) \<and> inbox (h1 c) = Closed" by auto
      then have "deliver em cs h1 = Inl SendOnClosedChannel" by (rule Cons.IH)
      with h1 unexpired show ?thesis by simp
    qed
  qed
qed

lemma close_inboxes_result:
  "distinct cs \<Longrightarrow> \<forall>c \<in> set cs. inbox (h c) \<noteq> Closed \<Longrightarrow>
   close_inboxes cs h = Inr (\<lambda>c. if c \<in> set cs then (h c)\<lparr>inbox := Closed\<rparr> else h c)"
proof (induction cs arbitrary: h)
  case Nil
  show ?case by simp
next
  case (Cons c cs)
  let ?h1 = "h(c := (h c)\<lparr>inbox := Closed\<rparr>)"
  from Cons.prems have "distinct cs" and "\<forall>c' \<in> set cs. inbox (?h1 c') \<noteq> Closed"
    by auto
  then have "close_inboxes cs ?h1 =
      Inr (\<lambda>c. if c \<in> set cs then (?h1 c)\<lparr>inbox := Closed\<rparr> else ?h1 c)"
    by (rule Cons.IH)
  with Cons.prems show ?case
    by (auto simp: close_inbox_def fun_eq_iff)
qed

lemma close_channels_result:
  "distinct (concat (map snd al)) \<Longrightarrow>
   \<forall>c \<in> set (concat (map snd al)). inbox (heap es c) \<noteq> Closed \<Longrightarrow>
   close_channels al es =
     Inr (es\<lparr>heap := (\<lambda>c. if c \<in> set (concat (map snd al))
                           then (heap es c)\<lparr>inbox := Closed\<rparr> else heap es c),
             consumers := filter (\<lambda>p. fst p \<notin> fst ` set al) (consumers es)\<rparr>)"
proof (induction al arbitrary: es)
  case Nil
  show ?case by simp
next
  case (Cons entry al)
  obtain name cs where entry: "entry = (name, cs)" by (cases entry)
  let ?h1 = "\<lambda>c. if c \<in> set cs then (heap es c)\<lparr>inbox := Closed\<rparr> else heap es c"
  let ?es1 = "es\<lparr>heap := ?h1, consumers := AList.delete name (consumers es)\<rparr>"
  from Cons.prems entry have d: "distinct cs" "distinct (concat (map snd al))"
    "set cs \<inter> set (concat (map snd al)) = {}"
    by auto
  from Cons.prems entry have o: "\<forall>c \<in> set cs. inbox (heap es c) \<noteq> Closed"
    by auto
  have first: "close_inboxes cs (heap es) = Inr ?h1"
    using d(1) o by (rule close_inboxes_result)
  let ?H = "\<lambda>c. if c \<in> set (concat (map snd al))
                 then (heap ?es1 c)\<lparr>inbox := Closed\<rparr> else heap ?es1 c"
  let ?C = "filter (\<lambda>p. fst p \<notin> fst ` set al) (consumers ?es1)"
  have "\<forall>c \<in> set (concat (map snd al)). inbox (heap ?es1 c) \<noteq> Closed"
    using Cons.prems(2) d(3) entry by auto
  with d(2) have rest: "close_channels al ?es1 = Inr (?es1\<lparr>heap := ?H, consumers := ?C\<rparr>)"
    by (rule Cons.IH)
  have C: "?C = filter (\<lambda>p. fst p \<notin> fst ` set (entry # al)) (consumers es)"
    by (auto simp: AList.delete_eq entry intro: filter_cong)
  have H: "?H = (\<lambda>c. if c \<in> set (concat (map snd (entry # al)))
                           then (heap es c)\<lparr>inbox := Closed\<rparr> else heap es c)"
    using d(3) by (auto simp: fun_eq_iff entry)
  have "close_channels (entry # al) es = close_channels al ?es1"
    using first by (simp add: entry)
  also note rest
  also have "Inr (?es1\<lparr>heap := ?H, consumers := ?C\<rparr>) =
      (Inr (es\<lparr>heap := ?H, consumers := ?C\<rparr>) :: panic + eventSource)"
    by simp
  finally show ?case unfolding H C .
qed

lemma map_of_member:
  "map_of al name = Some cs \<Longrightarrow> set cs \<subseteq> set (concat (map snd al))"
  by (induction al) (auto split: if_splits)

lemma map_of_distinct:
  "map_of al name = Some cs \<Longrightarrow> distinct (concat (map snd al)) \<Longrightarrow> distinct cs"
  by (induction al) (auto split: if_splits)

lemma close_global:
  assumes "wf es"
  shows "recv_closeChannel globalChannel es =
     Inr (es\<lparr>heap := (\<lambda>c. if c \<in> set (members es)
                           then (heap es c)\<lparr>inbox := Closed\<rparr> else heap es c),
             consumers := []\<rparr>)"
proof -
  from assms have "distinct (concat (map snd (consumers es)))"
    and "\<forall>c \<in> set (concat (map snd (consumers es))). inbox (heap es c) \<noteq> Closed"
    by (simp_all add: wf_def members_def)
  then have "close_channels (consumers es) es =
     Inr (es\<lparr>heap := (\<lambda>c. if c \<in> set (concat (map snd (consumers es)))
                           then (heap es c)\<lparr>inbox := Closed\<rparr> else heap es c),
             consumers := filter (\<lambda>p. fst p \<notin> fst ` set (consumers es)) (consumers es)\<rparr>)"
    by (rule close_channels_result)
  moreover have "filter (\<lambda>p. fst p \<notin> fst ` set (consumers es)) (consumers es) = []"
    by (simp add: filter_empty_conv)
  ultimately show ?thesis
    by (simp add: recv_closeChannel_def members_def)
qed

lemma close_named:
  assumes "wf es" and "name \<noteq> globalChannel" and "map_of (consumers es) name = Some cs"
  shows "recv_closeChannel name es =
     Inr (es\<lparr>heap := (\<lambda>c. if c \<in> set cs then (heap es c)\<lparr>inbox := Closed\<rparr> else heap es c),
             consumers := AList.delete name (consumers es)\<rparr>)"
proof -
  have "distinct cs"
    using map_of_distinct [OF assms(3)] assms(1) unfolding wf_def members_def by blast
  moreover from assms have "\<forall>c \<in> set cs. inbox (heap es c) \<noteq> Closed"
    using map_of_member [of "consumers es" name cs] by (auto simp: wf_def members_def)
  ultimately have "close_inboxes cs (heap es) =
      Inr (\<lambda>c. if c \<in> set cs then (heap es c)\<lparr>inbox := Closed\<rparr> else heap es c)"
    by (rule close_inboxes_result)
  with assms show ?thesis by (simp add: recv_closeChannel_def)
qed

lemma other_members_untouched:
  assumes "distinct (map fst al)" "distinct (concat (map snd al))"
    and "map_of al name = Some cs" and "map_of al other = Some ds" and "other \<noteq> name"
  shows "set cs \<inter> set ds = {}"
  using assms
proof (induction al)
  case Nil
  then show ?case by simp
next
  case (Cons entry al)
  obtain k v where entry: "entry = (k, v)" by (cases entry)
  show ?case
  proof (cases "k = name")
    case True
    with Cons.prems entry have "v = cs" "map_of al other = Some ds" by auto
    with Cons.prems(2) entry map_of_member [of al other ds] show ?thesis by auto
  next
    case False
    show ?thesis
    proof (cases "k = other")
      case True
      with Cons.prems entry False have "v = ds" "map_of al name = Some cs" by auto
      with Cons.prems(2) entry map_of_member [of al name cs] show ?thesis by auto
    next
      case nother: False
      with False Cons entry show ?thesis by auto
    qed
  qed
qed

lemma wf_targets_open:
  "wf es \<Longrightarrow> c \<in> set (spec_targets em es) \<Longrightarrow> inbox (heap es c) \<noteq> Closed"
  using map_of_member [of "consumers es" "Channel em"]
  by (auto simp: wf_def members_def spec_targets_def split: if_splits option.splits)

lemma example_hub_wf: "wf example_hub"
  by (simp add: wf_def members_def example_hub_def example_consumer_def)

lemmas example_defs =
  example_hub_def example_consumer_def example_conn_def example_message_def
  example_system_def example_exchange_def new_system_def zero_Settings_def globalChannel_def

lemma set_update:
  "distinct (map fst al) \<Longrightarrow>
   set (AList.update k w al) = insert (k, w) {p \<in> set al. fst p \<noteq> k}"
proof (induction al)
  case Nil
  show ?case by simp
next
  case (Cons entry al)
  show ?case
  proof (cases "fst entry = k")
    case True
    with Cons.prems have "k \<notin> fst ` set al" by auto
    then have "{p \<in> set al. fst p \<noteq> k} = set al" by auto
    with True show ?thesis by auto
  next
    case False
    with Cons show ?thesis by auto
  qed
qed

lemma members_set: "set (concat (map snd al)) = (\<Union>p \<in> set al. set (snd p))"
  by simp

lemma members_update:
  assumes "distinct (map fst al)"
  shows "set (concat (map snd (AList.update k w al))) =
     set w \<union> set (concat (map snd (filter (\<lambda>p. fst p \<noteq> k) al)))"
  unfolding members_set set_update [OF assms] by auto

lemma distinct_members_filter:
  "distinct (concat (map snd al)) \<Longrightarrow> distinct (concat (map snd (filter P al)))"
  by (induction al) auto

lemma distinct_members_update:
  "distinct (map fst al) \<Longrightarrow> distinct (concat (map snd al)) \<Longrightarrow> distinct w \<Longrightarrow>
   set w \<inter> set (concat (map snd (filter (\<lambda>p. fst p \<noteq> k) al))) = {} \<Longrightarrow>
   distinct (concat (map snd (AList.update k w al)))"
proof (induction al)
  case Nil
  then show ?case by simp
next
  case (Cons entry al)
  show ?case
  proof (cases "fst entry = k")
    case True
    with Cons.prems(1) have "k \<notin> fst ` set al" by auto
    then have "filter (\<lambda>p. fst p \<noteq> k) al = al" by (auto simp: filter_id_conv)
    with True Cons.prems show ?thesis by auto
  next
    case False
    from Cons.prems have keys: "distinct (map fst al)" by simp
    from Cons.prems False have "distinct (concat (map snd (AList.update k w al)))"
      by (intro Cons.IH) auto
    moreover have "set (snd entry) \<inter> set (concat (map snd (AList.update k w al))) = {}"
      unfolding members_update [OF keys] using Cons.prems(2,4) False by auto
    moreover from Cons.prems(2) have "distinct (snd entry)" by simp
    ultimately show ?thesis using False by simp
  qed
qed

lemma entry_disjoint_rest:
  assumes "distinct (map fst al)" "distinct (concat (map snd al))" "map_of al k = Some cs"
  shows "set cs \<inter> set (concat (map snd (filter (\<lambda>p. fst p \<noteq> k) al))) = {}"
proof -
  have "x \<notin> set cs" if "x \<in> set (concat (map snd (filter (\<lambda>p. fst p \<noteq> k) al)))" for x
  proof -
    from that obtain n ds where nds: "(n, ds) \<in> set al" "n \<noteq> k" "x \<in> set ds" by auto
    with assms(1) have "map_of al n = Some ds" by simp
    from other_members_untouched [OF assms(1,2,3) this nds(2)] nds(3) show ?thesis by auto
  qed
  then show ?thesis by blast
qed

lemma wf_init: "wf \<lparr>consumers = [], heap = h, closed_chans = [], settings = st\<rparr>"
  by (simp add: wf_def members_def)

lemma wf_messageRouter:
  assumes "wf es" and "recv_messageRouter em es = Inr es'"
  shows "wf es'"
proof -
  from assms(2) obtain h where h: "deliver em (spec_targets em es) (heap es) = Inr h"
    and es': "es' = es\<lparr>heap := h\<rparr>"
    by (auto simp: recv_messageRouter_targets split: sum.splits)
  from deliver_frame [OF h] assms(1) show ?thesis
    by (simp add: wf_def members_def es')
qed

lemma wf_closeChannel:
  assumes "wf es" and "recv_closeChannel name es = Inr es'"
  shows "wf es'"
proof (cases "name = globalChannel")
  case True
  with assms close_global [OF assms(1)] show ?thesis
    by (auto simp: wf_def members_def)
next
  case False
  show ?thesis
  proof (cases "map_of (consumers es) name")
    case None
    with False assms show ?thesis by (simp add: recv_closeChannel_def)
  next
    case (Some cs)
    let ?al = "filter (\<lambda>p. fst p \<noteq> name) (consumers es)"
    have del: "AList.delete name (consumers es) = ?al"
      by (auto simp: AList.delete_eq intro: filter_cong)
    from close_named [OF assms(1) False Some] assms(2)
    have es': "es' = es\<lparr>heap := (\<lambda>c. if c \<in> set cs then (heap es c)\<lparr>inbox := Closed\<rparr> else heap es c),
             consumers := ?al\<rparr>"
      by (simp add: del)
    from assms(1) have dk: "distinct (map fst (consumers es))"
      and dm: "distinct (concat (map snd (consumers es)))"
      and op: "\<forall>c \<in> set (concat (map snd (consumers es))). inbox (heap es c) \<noteq> Closed"
      and ch: "\<forall>(n, ds) \<in> set (consumers es). \<forall>c \<in> set ds. channel (heap es c) = n"
      by (simp_all add: wf_def members_def)
    have keys: "distinct (map fst ?al)"
      using dk by (simp add: distinct_map_filter)
    have dist: "distinct (concat (map snd ?al))"
      using dm by (rule distinct_members_filter)
    have disj: "set cs \<inter> set (concat (map snd ?al)) = {}"
      using dk dm Some by (rule entry_disjoint_rest)
    have sub: "set (concat (map snd ?al)) \<subseteq> set (concat (map snd (consumers es)))"
      by auto
    have open': "\<forall>c \<in> set (concat (map snd ?al)).
        inbox ((if c \<in> set cs then (heap es c)\<lparr>inbox := Closed\<rparr> else heap es c)) \<noteq> Closed"
    proof
      fix c
      assume c: "c \<in> set (concat (map snd ?al))"
      with disj have "c \<notin> set cs" by blast
      moreover from c sub op have "inbox (heap es c) \<noteq> Closed" by blast
      ultimately show "inbox ((if c \<in> set cs then (heap es c)\<lparr>inbox := Closed\<rparr> else heap es c))
          \<noteq> Closed"
        by simp
    qed
    have chan': "\<forall>(n, ds) \<in> set ?al. \<forall>c \<in> set ds.
        channel ((if c \<in> set cs then (heap es c)\<lparr>inbox := Closed\<rparr> else heap es c)) = n"
      using ch by auto
    show ?thesis
      unfolding wf_def members_def es' using keys dist open' chan' by simp
  qed
qed

lemma wf_addConsumer:
  assumes "wf es" and "cr \<notin> set (members es)" and "inbox (heap es cr) \<noteq> Closed"
  shows "wf (recv_addConsumer cr es)"
proof -
  let ?k = "channel (heap es cr)"
  let ?old = "case map_of (consumers es) ?k of None \<Rightarrow> [] | Some cs \<Rightarrow> cs"
  let ?al = "AList.update ?k (?old @ [cr]) (consumers es)"
  let ?rest = "filter (\<lambda>p. fst p \<noteq> ?k) (consumers es)"
  from assms(1) have dk: "distinct (map fst (consumers es))"
    and dm: "distinct (concat (map snd (consumers es)))"
    and op: "\<forall>c \<in> set (concat (map snd (consumers es))). inbox (heap es c) \<noteq> Closed"
    and ch: "\<forall>(n, ds) \<in> set (consumers es). \<forall>c \<in> set ds. channel (heap es c) = n"
    by (simp_all add: wf_def members_def)
  have old_sub: "set ?old \<subseteq> set (concat (map snd (consumers es)))"
    using map_of_member [of "consumers es" ?k] by (cases "map_of (consumers es) ?k") auto
  have old_dist: "distinct ?old"
    using map_of_distinct [of "consumers es" ?k] dm by (cases "map_of (consumers es) ?k") auto
  have old_disj: "set ?old \<inter> set (concat (map snd ?rest)) = {}"
    using entry_disjoint_rest [OF dk dm] by (cases "map_of (consumers es) ?k") auto
  have old_chan: "\<forall>c \<in> set ?old. channel (heap es c) = ?k"
  proof (cases "map_of (consumers es) ?k")
    case None
    then show ?thesis by simp
  next
    case (Some cs)
    then have "(?k, cs) \<in> set (consumers es)" by (rule map_of_SomeD)
    with ch Some show ?thesis by auto
  qed
  have rest_sub: "set (concat (map snd ?rest)) \<subseteq> set (concat (map snd (consumers es)))"
    by auto
  have new: "cr \<notin> set (concat (map snd (consumers es)))"
    using assms(2) by (simp add: members_def)
  have keys: "distinct (map fst ?al)"
    using dk by (rule AList.distinct_update)
  have "distinct (?old @ [cr])"
    using old_dist old_sub new by auto
  moreover have "set (?old @ [cr]) \<inter> set (concat (map snd ?rest)) = {}"
    using old_disj rest_sub new by auto
  ultimately have dist: "distinct (concat (map snd ?al))"
    using dk dm by (intro distinct_members_update)
  have mem: "set (concat (map snd ?al)) = set (?old @ [cr]) \<union> set (concat (map snd ?rest))"
    using dk by (rule members_update)
  have open': "\<forall>c \<in> set (concat (map snd ?al)). inbox (heap es c) \<noteq> Closed"
    unfolding mem using old_sub rest_sub op assms(3) by auto
  have chan': "\<forall>(n, ds) \<in> set ?al. \<forall>c \<in> set ds. channel (heap es c) = n"
    unfolding set_update [OF dk] using old_chan ch by auto
  show ?thesis
    unfolding wf_def members_def recv_addConsumer_def using keys dist open' chan' by simp
qed

lemma wf_expireConsumer:
  assumes "wf es" and "recv_expireConsumer cr es = Inr es'"
  shows "wf es'"
proof (cases "map_of (consumers es) (channel (heap es cr))")
  case None
  with assms show ?thesis by (simp add: recv_expireConsumer_def)
next
  case (Some cs)
  let ?k = "channel (heap es cr)"
  let ?w = "filter (\<lambda>x. x \<noteq> cr) cs"
  let ?al = "AList.update ?k ?w (consumers es)"
  let ?rest = "filter (\<lambda>p. fst p \<noteq> ?k) (consumers es)"
  let ?h = "(heap es)(cr := (heap es cr)\<lparr>inbox := Closed\<rparr>)"
  from assms(2) Some have es': "es' = es\<lparr>consumers := ?al, heap := ?h\<rparr>"
    by (auto simp: recv_expireConsumer_def close_inbox_def Let_def split: if_splits)
  from assms(1) have dk: "distinct (map fst (consumers es))"
    and dm: "distinct (concat (map snd (consumers es)))"
    and op: "\<forall>c \<in> set (concat (map snd (consumers es))). inbox (heap es c) \<noteq> Closed"
    and ch: "\<forall>(n, ds) \<in> set (consumers es). \<forall>c \<in> set ds. channel (heap es c) = n"
    by (simp_all add: wf_def members_def)
  have cs_sub: "set cs \<subseteq> set (concat (map snd (consumers es)))"
    using Some by (rule map_of_member)
  have rest_sub: "set (concat (map snd ?rest)) \<subseteq> set (concat (map snd (consumers es)))"
    by auto
  have keys: "distinct (map fst ?al)"
    using dk by (rule AList.distinct_update)
  have "distinct ?w"
    using map_of_distinct [OF Some dm] by simp
  moreover have "set ?w \<inter> set (concat (map snd ?rest)) = {}"
    using entry_disjoint_rest [OF dk dm Some] by auto
  ultimately have dist: "distinct (concat (map snd ?al))"
    using dk dm by (intro distinct_members_update)
  have mem: "set (concat (map snd ?al)) = set ?w \<union> set (concat (map snd ?rest))"
    using dk by (rule members_update)
  have not_rest: "cr \<notin> set (concat (map snd ?rest))"
  proof
    assume "cr \<in> set (concat (map snd ?rest))"
    then obtain n ds where "(n, ds) \<in> set (consumers es)" "n \<noteq> ?k" "cr \<in> set ds" by auto
    with ch show False by auto
  qed
  have open': "\<forall>c \<in> set (concat (map snd ?al)). inbox (?h c) \<noteq> Closed"
  proof
    fix c
    assume "c \<in> set (concat (map snd ?al))"
    with mem have c: "c \<in> set ?w \<or> c \<in> set (concat (map snd ?rest))" by blast
    with not_rest have "c \<noteq> cr" by auto
    moreover have "set ?w \<subseteq> set cs" by auto
    with c cs_sub rest_sub have "c \<in> set (concat (map snd (consumers es)))" by blast
    with op have "inbox (heap es c) \<noteq> Closed" by blast
    ultimately show "inbox (?h c) \<noteq> Closed" by simp
  qed
  have "(?k, cs) \<in> set (consumers es)" using Some by (rule map_of_SomeD)
  with ch have "\<forall>c \<in> set ?w. channel (heap es c) = ?k" by auto
  then have chan': "\<forall>(n, ds) \<in> set ?al. \<forall>c \<in> set ds. channel (?h c) = n"
    unfolding set_update [OF dk] using ch by auto
  show ?thesis
    unfolding wf_def members_def es' using keys dist open' chan' by simp
qed

subsection \<open>Expiry\<close>

text \<open>
  Processing a subscriber-expired request for a consumer whose topic has a map entry and
  whose inbox has not been closed rebuilds the topic's list without the consumer and closes
  the inbox. Processing one for a consumer whose topic has no map entry leaves the state as
  it was, without a failure.
\<close>

lemma expireConsumer_effect:
  "(map_of (consumers es) (channel (heap es cr)) = Some cs \<and> inbox (heap es cr) \<noteq> Closed \<longrightarrow>
      recv_expireConsumer cr es =
        Inr (es\<lparr>consumers := AList.update (channel (heap es cr)) (filter (\<lambda>x. x \<noteq> cr) cs) (consumers es),
                heap := (heap es)(cr := (heap es cr)\<lparr>inbox := Closed\<rparr>)\<rparr>))
   \<and> (map_of (consumers es) (channel (heap es cr)) = None \<longrightarrow> recv_expireConsumer cr es = Inr es)"
  by (simp add: recv_expireConsumer_def close_inbox_def Let_def)

lemma expireConsumer_effect_example:
  "(\<exists>es'. recv_expireConsumer 0 example_hub = Inr es'
      \<and> consumers es' = [(''news'', [1]), (''sport'', [2])] \<and> inbox (heap es' 0) = Closed)
   \<and> recv_expireConsumer 0 (example_hub\<lparr>consumers := [(''sport'', [2])]\<rparr>)
       = Inr (example_hub\<lparr>consumers := [(''sport'', [2])]\<rparr>)"
  using expireConsumer_effect [of example_hub 0 "[0, 1]"]
    expireConsumer_effect [of "example_hub\<lparr>consumers := [(''sport'', [2])]\<rparr>" 0 "[]"]
  by (simp add: example_hub_def example_consumer_def)

text \<open>
  A consumer reported a second time while its topic is still in the map: the first report
  removes consumer 0 from the list of news and closes its inbox; the second closes the
  inbox again, which panics.
\<close>

lemma expireConsumer_twice:
  "recv_expireConsumer 0 example_hub =
     Inr (example_hub\<lparr>consumers := [(''news'', [1]), (''sport'', [2])],
                      heap := (heap example_hub)(0 := (heap example_hub 0)\<lparr>inbox := Closed\<rparr>)\<rparr>)
   \<and> recv_expireConsumer 0
        (example_hub\<lparr>consumers := [(''news'', [1]), (''sport'', [2])],
                     heap := (heap example_hub)(0 := (heap example_hub 0)\<lparr>inbox := Closed\<rparr>)\<rparr>)
      = Inl CloseOfClosedChannel"
  by (simp add: recv_expireConsumer_def close_inbox_def Let_def example_hub_def
      example_consumer_def)

subsection \<open>The worker\<close>



section \<open>Properties of the system of goroutines\<close>

text \<open>
  While the dispatcher stands at the send of line 325 nobody receives on any of the five
  channels, so no rendezvous takes place.
\<close>

lemma newConsumer_failure:
  "newConsumer st x name =
     (if hijack_fails x then (Inl ConnectError, client x)
      else case preamble_write x of
             WriteErr err \<Rightarrow> (Inl ConnectError, (client x)\<lparr>closed := True\<rparr>)
           | WriteOk \<Rightarrow>
               (Inr \<lparr>connection = conn_write (headersData st) (client x), inbox = Busy,
                     delivered = [], channel = name, expired = False\<rparr>,
                conn_write (headersData st) (client x)))"
  by (simp add: newConsumer_def setupConnection_def Let_def split: write_result.splits)

lemma receiving_StopSend: "dispatcher_at sys = StopSend \<Longrightarrow> receiving sys g = []"
  by (cases g) simp_all

lemma Sync_StopSend: "dispatcher_at sys = StopSend \<Longrightarrow> exec (Sync s r) sys = sys"
  by (simp add: receiving_StopSend split: option.splits prod.splits)

lemma exec_StopSend:
  assumes "dispatcher_at sys = StopSend"
  shows "dispatcher_at (exec e sys) = StopSend
    \<and> consumers (hub (exec e sys)) = consumers (hub sys)
    \<and> closed_chans (hub (exec e sys)) = closed_chans (hub sys)
    \<and> (\<forall>c. inbox (heap (hub (exec e sys)) c) = Closed \<longrightarrow> inbox (heap (hub sys) c) = Closed)"
proof (cases e)
  case (Call r)
  with assms show ?thesis by simp
next
  case (Ask q)
  with assms show ?thesis by simp
next
  case (Subscribe name x)
  with assms show ?thesis
    by (auto simp: subscribeHandler_def newConsumer_failure split: write_result.splits)
next
  case (Park c)
  with assms show ?thesis by simp
next
  case (Report c)
  with assms show ?thesis by simp
next
  case (Sync s r)
  have "exec e sys = sys"
    unfolding Sync using assms by (rule Sync_StopSend)
  with assms show ?thesis by (simp only: le_refl simp_thms)
qed

lemma run_StopSend:
  "dispatcher_at sys = StopSend \<Longrightarrow>
   dispatcher_at (run evs sys) = StopSend
    \<and> consumers (hub (run evs sys)) = consumers (hub sys)
    \<and> closed_chans (hub (run evs sys)) = closed_chans (hub sys)
    \<and> (\<forall>c. inbox (heap (hub (run evs sys)) c) = Closed \<longrightarrow> inbox (heap (hub sys) c) = Closed)"
proof (induction evs arbitrary: sys)
  case Nil
  then show ?case by simp
next
  case (Cons e evs)
  from exec_StopSend [OF Cons.prems, of e]
  have step: "dispatcher_at (exec e sys) = StopSend"
    "consumers (hub (exec e sys)) = consumers (hub sys)"
    "closed_chans (hub (exec e sys)) = closed_chans (hub sys)"
    "\<forall>c. inbox (heap (hub (exec e sys)) c) = Closed \<longrightarrow> inbox (heap (hub sys) c) = Closed"
    by simp_all
  from Cons.IH [OF step(1)] step show ?case by auto
qed


text \<open>
  A goroutine parked in a send stays there through every step but its own rendezvous with
  the dispatcher; the dispatcher's cases leave the list of parked goroutines alone.
\<close>

lemma parked_continue_with: "parked (continue_with r sys) = parked sys"
  by (simp add: continue_with_def split: sum.splits)

lemma parked_actionDispatcher: "parked (actionDispatcher r sys) = parked sys"
  by (cases r) (simp_all add: parked_continue_with)

lemma parked_subscribeHandler:
  "i < length (parked sys) \<Longrightarrow>
   i < length (parked (fst (subscribeHandler name x sys)))
   \<and> parked (fst (subscribeHandler name x sys)) ! i = parked sys ! i"
  by (simp add: subscribeHandler_def newConsumer_failure nth_append split: write_result.splits)

lemma parked_Sync:
  assumes "i < length (parked sys)" "\<not> (s = Caller i \<and> r = Dispatcher)"
  shows "i < length (parked (exec (Sync s r) sys))
    \<and> parked (exec (Sync s r) sys) ! i = parked sys ! i"
proof (cases s)
  case Dispatcher
  show ?thesis
  proof (cases r)
    case Dispatcher
    with \<open>s = Dispatcher\<close> assms(1) show ?thesis by (simp split: option.splits prod.splits)
  next
    case (Caller k)
    with \<open>s = Dispatcher\<close> assms(1) show ?thesis by (simp split: option.splits prod.splits)
  qed
next
  case (Caller j)
  show ?thesis
  proof (cases r)
    case Dispatcher
    with Caller assms(2) have "j \<noteq> i" by simp
    with Caller Dispatcher assms(1) show ?thesis
      by (simp add: parked_actionDispatcher split: option.splits)
  next
    case (Caller k)
    with \<open>s = Caller j\<close> assms(1) show ?thesis by (simp split: option.splits)
  qed
qed

lemma parked_exec:
  assumes "i < length (parked sys)" "e \<noteq> Sync (Caller i) Dispatcher"
  shows "i < length (parked (exec e sys)) \<and> parked (exec e sys) ! i = parked sys ! i"
proof (cases e)
  case (Call r)
  with assms(1) show ?thesis by (simp add: nth_append)
next
  case (Ask q)
  with assms(1) show ?thesis by (simp add: nth_append)
next
  case (Subscribe name x)
  with parked_subscribeHandler [OF assms(1)] show ?thesis by simp
next
  case (Park c)
  with assms(1) show ?thesis by simp
next
  case (Report c)
  with assms(1) show ?thesis by (simp add: nth_append)
next
  case (Sync s r)
  with assms(2) have "\<not> (s = Caller i \<and> r = Dispatcher)" by simp
  from parked_Sync [OF assms(1) this] Sync show ?thesis by simp
qed

lemma parked_exec_StopSend:
  assumes "dispatcher_at sys = StopSend" "i < length (parked sys)"
  shows "i < length (parked (exec e sys)) \<and> parked (exec e sys) ! i = parked sys ! i"
proof (cases "e = Sync (Caller i) Dispatcher")
  case True
  have "exec e sys = sys"
    unfolding True using assms(1) by (rule Sync_StopSend)
  with assms(2) show ?thesis by (simp only: simp_thms)
next
  case False
  from parked_exec [OF assms(2) False] show ?thesis .
qed

text \<open>
  So a goroutine that is parked in a send when the dispatcher stands at line 325 is parked
  in it after every run: a worker that reports its expiry then does not return.
\<close>

lemma parked_run_StopSend:
  "dispatcher_at sys = StopSend \<Longrightarrow> i < length (parked sys) \<Longrightarrow>
   i < length (parked (run evs sys)) \<and> parked (run evs sys) ! i = parked sys ! i"
proof (induction evs arbitrary: sys)
  case Nil
  then show ?case by simp
next
  case (Cons e evs)
  from exec_StopSend [OF Cons.prems(1), of e]
  have at: "dispatcher_at (exec e sys) = StopSend" by simp
  from parked_exec_StopSend [OF Cons.prems, of e]
  have p: "i < length (parked (exec e sys))" "parked (exec e sys) ! i = parked sys ! i"
    by simp_all
  from Cons.IH [OF at p(1)] p(2) show ?case by simp
qed
section \<open>The invariant of the system\<close>

text \<open>
  Every step of the system keeps \<open>sys_inv\<close>, so every state reached from
  \<^verbatim>\<open>New\<close> satisfies the hub's invariant \<open>wf\<close>.
\<close>

lemma wf_heap_cong:
  assumes "wf es" and "consumers es' = consumers es"
    and "\<forall>c \<in> set (members es).
           (inbox (heap es' c) = Closed \<longleftrightarrow> inbox (heap es c) = Closed)
           \<and> channel (heap es' c) = channel (heap es c)"
  shows "wf es'"
proof -
  from assms(2) have m: "members es' = members es" by (simp add: members_def)
  have "c \<in> set (members es)" if "(name, cs) \<in> set (consumers es)" "c \<in> set cs" for name cs c
    using that by (force simp: members_def)
  with assms show ?thesis
    unfolding wf_def m assms(2) by (auto simp: members_def)
qed

lemma messageRouter_result:
  assumes "wf es"
  shows "recv_messageRouter em es =
     Inr (es\<lparr>heap := (\<lambda>c. if c \<in> set (spec_targets em es) \<and> \<not> expired (heap es c)
                               \<and> inbox (heap es c) = Parked
                            then spec_handoff em (heap es c) else heap es c)\<rparr>)"
proof -
  from assms have "\<forall>c \<in> set (spec_targets em es). \<not> expired (heap es c) \<longrightarrow> inbox (heap es c) \<noteq> Closed"
    using wf_targets_open by blast
  then have "deliver em (spec_targets em es) (heap es) =
      Inr (\<lambda>c. if c \<in> set (spec_targets em es) \<and> \<not> expired (heap es c) \<and> inbox (heap es c) = Parked
              then spec_handoff em (heap es c) else heap es c)"
    by (rule deliver_result)
  then show ?thesis by (simp add: recv_messageRouter_targets)
qed

lemma targets_members: "set (spec_targets em es) \<subseteq> set (members es)"
proof (cases "map_of (consumers es) (Channel em)")
  case None
  then show ?thesis by (simp add: spec_targets_def members_def)
next
  case (Some cs)
  from map_of_member [OF Some] Some show ?thesis
    by (simp add: spec_targets_def members_def)
qed

lemma closeChannel_frame:
  assumes "wf es" and "recv_closeChannel name es = Inr es'"
  shows "set (members es') \<subseteq> set (members es)
    \<and> (\<forall>c. c \<notin> set (members es) \<longrightarrow> heap es' c = heap es c)
    \<and> (\<forall>c. delivered (heap es' c) = delivered (heap es c))"
proof (cases "name = globalChannel")
  case True
  with assms close_global [OF assms(1)] show ?thesis
    by (auto simp: members_def)
next
  case False
  show ?thesis
  proof (cases "map_of (consumers es) name")
    case None
    with False assms show ?thesis by (simp add: recv_closeChannel_def)
  next
    case (Some cs)
    from close_named [OF assms(1) False Some] assms(2)
    have es': "es' = es\<lparr>heap := (\<lambda>c. if c \<in> set cs then (heap es c)\<lparr>inbox := Closed\<rparr> else heap es c),
             consumers := AList.delete name (consumers es)\<rparr>"
      by simp
    have "set cs \<subseteq> set (members es)"
      using map_of_member [OF Some] by (simp add: members_def)
    moreover have "set (members es') \<subseteq> set (members es)"
      by (auto simp: es' members_def AList.delete_eq)
    ultimately show ?thesis by (auto simp: es')
  qed
qed

lemma addConsumer_members:
  assumes "distinct (map fst (consumers es))"
  shows "set (members (recv_addConsumer cr es)) \<subseteq> insert cr (set (members es))"
proof -
  let ?k = "channel (heap es cr)"
  let ?old = "case map_of (consumers es) ?k of None \<Rightarrow> [] | Some cs \<Rightarrow> cs"
  have "set ?old \<subseteq> set (concat (map snd (consumers es)))"
    using map_of_member [of "consumers es" ?k] by (cases "map_of (consumers es) ?k") auto
  moreover have "set (concat (map snd (filter (\<lambda>p. fst p \<noteq> ?k) (consumers es))))
      \<subseteq> set (concat (map snd (consumers es)))"
    by auto
  ultimately show ?thesis
    unfolding members_def recv_addConsumer_def using members_update [OF assms, of ?k "?old @ [cr]"]
    by auto
qed

lemma expireConsumer_frame:
  assumes "distinct (map fst (consumers es))" and "recv_expireConsumer cr es = Inr es'"
  shows "set (members es') \<subseteq> set (members es)
    \<and> (\<forall>c. c \<noteq> cr \<longrightarrow> heap es' c = heap es c)
    \<and> (\<forall>c. delivered (heap es' c) = delivered (heap es c))"
proof (cases "map_of (consumers es) (channel (heap es cr))")
  case None
  with assms show ?thesis by (simp add: recv_expireConsumer_def)
next
  case (Some cs)
  let ?k = "channel (heap es cr)"
  let ?w = "filter (\<lambda>x. x \<noteq> cr) cs"
  from assms(2) Some have es': "es' = es\<lparr>consumers := AList.update ?k ?w (consumers es),
      heap := (heap es)(cr := (heap es cr)\<lparr>inbox := Closed\<rparr>)\<rparr>"
    by (auto simp: recv_expireConsumer_def close_inbox_def Let_def split: if_splits)
  have "set ?w \<subseteq> set (concat (map snd (consumers es)))"
    using map_of_member [OF Some] by auto
  moreover have "set (concat (map snd (filter (\<lambda>p. fst p \<noteq> ?k) (consumers es))))
      \<subseteq> set (concat (map snd (consumers es)))"
    by auto
  ultimately have "set (members es') \<subseteq> set (members es)"
    unfolding members_def es' using members_update [OF assms(1), of ?k ?w] by auto
  then show ?thesis by (auto simp: es')
qed


lemma sys_inv_New: "sys_inv (New st h)"
  by (simp add: sys_inv_def joins_parked_ok_def expiries_parked_ok_def New_def wf_def members_def)

lemma joins_parked_okD:
  assumes "joins_parked_ok sys" and "i < length (parked sys)" and "parked sys ! i = Some (Join c)"
  shows "c \<in> set (workers sys)" "c \<notin> set (members (hub sys))"
    "inbox (heap (hub sys) c) \<noteq> Closed" "delivered (heap (hub sys) c) = []"
    "j < length (parked sys) \<Longrightarrow> parked sys ! j = Some (Join c) \<Longrightarrow> j = i"
  using assms unfolding joins_parked_ok_def by blast+

lemma expiries_parked_okD:
  assumes "expiries_parked_ok sys" and "i < length (parked sys)" and "parked sys ! i = Some (Expire c)"
  shows "c \<in> set (workers sys)" "delivered (heap (hub sys) c) \<noteq> []"
  using assms unfolding expiries_parked_ok_def by blast+

lemma nth_taken:
  "(xs[i := None]) ! j = Some r \<Longrightarrow> j < length xs \<Longrightarrow> xs ! j = Some r \<and> j \<noteq> i"
  by (cases "j = i") auto


lemma joins_taken:
  assumes "joins_parked_ok sys"
  shows "joins_parked_ok (sys\<lparr>parked := (parked sys)[i := None]\<rparr>)"
  unfolding joins_parked_ok_def
proof (intro allI impI)
  let ?sys1 = "sys\<lparr>parked := (parked sys)[i := None]\<rparr>"
  fix j c
  assume j: "j < length (parked ?sys1)" and jc: "parked ?sys1 ! j = Some (Join c)"
  from j have j': "j < length (parked sys)" by simp
  from jc j' have old: "parked sys ! j = Some (Join c)"
    using nth_taken [of "parked sys" i j "Join c"] by simp
  have uniq: "k = j" if "k < length (parked ?sys1)" "parked ?sys1 ! k = Some (Join c)" for k
  proof -
    from that have "k < length (parked sys)" "parked sys ! k = Some (Join c)"
      using nth_taken [of "parked sys" i k "Join c"] by simp_all
    then show ?thesis by (rule joins_parked_okD(5) [OF assms j' old])
  qed
  from joins_parked_okD(1-4) [OF assms j' old] uniq
  show "c \<in> set (workers ?sys1) \<and> c \<notin> set (members (hub ?sys1)) \<and>
        inbox (heap (hub ?sys1) c) \<noteq> Closed \<and> delivered (heap (hub ?sys1) c) = [] \<and>
        (\<forall>k < length (parked ?sys1). parked ?sys1 ! k = Some (Join c) \<longrightarrow> k = j)"
    by simp
qed

lemma expiries_taken:
  assumes "expiries_parked_ok sys"
  shows "expiries_parked_ok (sys\<lparr>parked := (parked sys)[i := None]\<rparr>)"
  unfolding expiries_parked_ok_def
proof (intro allI impI)
  let ?sys1 = "sys\<lparr>parked := (parked sys)[i := None]\<rparr>"
  fix j c
  assume j: "j < length (parked ?sys1)" and jc: "parked ?sys1 ! j = Some (Expire c)"
  from j have j': "j < length (parked sys)" by simp
  from jc j' have old: "parked sys ! j = Some (Expire c)"
    using nth_taken [of "parked sys" i j "Expire c"] by simp
  from expiries_parked_okD [OF assms j' old]
  show "c \<in> set (workers ?sys1) \<and> delivered (heap (hub ?sys1) c) \<noteq> []"
    by simp
qed

lemma sys_inv_taken:
  assumes "sys_inv sys"
  shows "sys_inv (sys\<lparr>parked := (parked sys)[i := None]\<rparr>)"
proof -
  from assms have j: "joins_parked_ok sys" and e: "expiries_parked_ok sys"
    by (simp_all add: sys_inv_def)
  from j have "joins_parked_ok (sys\<lparr>parked := (parked sys)[i := None]\<rparr>)"
    by (rule joins_taken)
  moreover from e have "expiries_parked_ok (sys\<lparr>parked := (parked sys)[i := None]\<rparr>)"
    by (rule expiries_taken)
  ultimately show ?thesis using assms by (simp add: sys_inv_def)
qed

lemma taken_join_gone:
  assumes "joins_parked_ok sys" and "i < length (parked sys)" and "parked sys ! i = Some (Join c)"
    and "j < length (parked sys)"
  shows "((parked sys)[i := None]) ! j \<noteq> Some (Join c)"
proof
  assume a: "((parked sys)[i := None]) ! j = Some (Join c)"
  from nth_taken [OF a assms(4)] have "parked sys ! j = Some (Join c) \<and> j \<noteq> i" .
  with joins_parked_okD(5) [OF assms(1-3), of j] assms(4) show False by simp
qed

text \<open>
  A change of the hub's state keeps the invariant when the new state satisfies the hub's
  invariant, lists no consumer that was not created, leaves the consumers with a parked
  join outside the map with their inboxes as they were, and takes no message back.
\<close>

lemma sys_inv_hub:
  assumes "sys_inv sys" and "wf hub'"
    and "\<forall>c \<in> set (members hub'). c < next_consumer sys"
    and "\<forall>j < length (parked sys). \<forall>c. parked sys ! j = Some (Join c) \<longrightarrow>
           c \<notin> set (members hub') \<and> inbox (heap hub' c) \<noteq> Closed \<and> delivered (heap hub' c) = []"
    and "\<forall>c. delivered (heap (hub sys) c) \<noteq> [] \<longrightarrow> delivered (heap hub' c) \<noteq> []"
  shows "sys_inv (sys\<lparr>hub := hub'\<rparr>)"
proof -
  from assms(1) have j: "joins_parked_ok sys" and e: "expiries_parked_ok sys"
    and w: "\<forall>c \<in> set (workers sys). c < next_consumer sys"
    by (simp_all add: sys_inv_def)
  have "joins_parked_ok (sys\<lparr>hub := hub'\<rparr>)"
    unfolding joins_parked_ok_def
  proof (intro allI impI)
    fix i c
    assume i: "i < length (parked (sys\<lparr>hub := hub'\<rparr>))"
      and ic: "parked (sys\<lparr>hub := hub'\<rparr>) ! i = Some (Join c)"
    then have i': "i < length (parked sys)" and ic': "parked sys ! i = Some (Join c)" by simp_all
    from assms(4) i' ic' have "c \<notin> set (members hub') \<and> inbox (heap hub' c) \<noteq> Closed
        \<and> delivered (heap hub' c) = []"
      by blast
    moreover have "\<forall>k < length (parked sys). parked sys ! k = Some (Join c) \<longrightarrow> k = i"
      using joins_parked_okD(5) [OF j i' ic'] by blast
    ultimately show "c \<in> set (workers (sys\<lparr>hub := hub'\<rparr>)) \<and>
        c \<notin> set (members (hub (sys\<lparr>hub := hub'\<rparr>))) \<and>
        inbox (heap (hub (sys\<lparr>hub := hub'\<rparr>)) c) \<noteq> Closed \<and>
        delivered (heap (hub (sys\<lparr>hub := hub'\<rparr>)) c) = [] \<and>
        (\<forall>k < length (parked (sys\<lparr>hub := hub'\<rparr>)).
            parked (sys\<lparr>hub := hub'\<rparr>) ! k = Some (Join c) \<longrightarrow> k = i)"
      using joins_parked_okD(1) [OF j i' ic'] by simp
  qed
  moreover have "expiries_parked_ok (sys\<lparr>hub := hub'\<rparr>)"
    unfolding expiries_parked_ok_def
  proof (intro allI impI)
    fix i c
    assume i: "i < length (parked (sys\<lparr>hub := hub'\<rparr>))"
      and ic: "parked (sys\<lparr>hub := hub'\<rparr>) ! i = Some (Expire c)"
    then have i': "i < length (parked sys)" and ic': "parked sys ! i = Some (Expire c)" by simp_all
    from expiries_parked_okD [OF e i' ic'] assms(5)
    show "c \<in> set (workers (sys\<lparr>hub := hub'\<rparr>)) \<and>
        delivered (heap (hub (sys\<lparr>hub := hub'\<rparr>)) c) \<noteq> []"
      by simp
  qed
  ultimately show ?thesis using assms(2,3) w by (simp add: sys_inv_def)
qed

lemma parked_ok_accesses:
  "joins_parked_ok (sys\<lparr>accesses := a\<rparr>) = joins_parked_ok sys"
  "expiries_parked_ok (sys\<lparr>accesses := a\<rparr>) = expiries_parked_ok sys"
  by (simp_all add: joins_parked_ok_def expiries_parked_ok_def)

lemma parked_ok_dispatcher_at:
  "joins_parked_ok (sys\<lparr>dispatcher_at := l\<rparr>) = joins_parked_ok sys"
  "expiries_parked_ok (sys\<lparr>dispatcher_at := l\<rparr>) = expiries_parked_ok sys"
  by (simp_all add: joins_parked_ok_def expiries_parked_ok_def)

lemma parked_ok_answers:
  "joins_parked_ok (sys\<lparr>answers := l\<rparr>) = joins_parked_ok sys"
  "expiries_parked_ok (sys\<lparr>answers := l\<rparr>) = expiries_parked_ok sys"
  by (simp_all add: joins_parked_ok_def expiries_parked_ok_def)

lemma sys_inv_logged: "sys_inv (sys\<lparr>accesses := a\<rparr>) = sys_inv sys"
  by (simp add: sys_inv_def parked_ok_accesses)

lemma sys_inv_located: "sys_inv (sys\<lparr>dispatcher_at := l\<rparr>) = sys_inv sys"
  by (simp add: sys_inv_def parked_ok_dispatcher_at)

lemma sys_inv_answered: "sys_inv (sys\<lparr>answers := l\<rparr>) = sys_inv sys"
  by (simp add: sys_inv_def parked_ok_answers)

lemma sys_inv_pending:
  assumes "sys_inv sys" and "j < length (parked sys)" and "parked sys ! j = Some (Join c)"
  shows "c \<notin> set (members (hub sys))" "inbox (heap (hub sys) c) \<noteq> Closed"
    "delivered (heap (hub sys) c) = []"
proof -
  from assms(1) have "joins_parked_ok sys" by (simp add: sys_inv_def)
  from joins_parked_okD(2-4) [OF this assms(2,3)]
  show "c \<notin> set (members (hub sys))" "inbox (heap (hub sys) c) \<noteq> Closed"
    "delivered (heap (hub sys) c) = []"
    by simp_all
qed

lemma sys_inv_moved:
  assumes "sys_inv sys" and "wf hub'"
    and "\<forall>c \<in> set (members hub'). c < next_consumer sys"
    and "\<forall>j < length (parked sys). \<forall>c. parked sys ! j = Some (Join c) \<longrightarrow>
           c \<notin> set (members hub') \<and> inbox (heap hub' c) \<noteq> Closed \<and> delivered (heap hub' c) = []"
    and "\<forall>c. delivered (heap (hub sys) c) \<noteq> [] \<longrightarrow> delivered (heap hub' c) \<noteq> []"
  shows "sys_inv (continue_with (Inr hub') (sys\<lparr>accesses := a\<rparr>))"
proof -
  from assms(1) have "sys_inv (sys\<lparr>accesses := a\<rparr>)" by (simp add: sys_inv_logged)
  from sys_inv_hub [OF this, of hub'] assms(2-5)
  show ?thesis by (simp add: continue_with_def)
qed

lemma sys_inv_panicked:
  assumes "sys_inv sys"
  shows "sys_inv (continue_with (Inl p) (sys\<lparr>accesses := a\<rparr>))"
  using assms by (simp add: continue_with_def sys_inv_located sys_inv_logged)

lemma dispatch_Publish:
  assumes "sys_inv sys"
  shows "sys_inv (actionDispatcher (Publish em) sys)"
proof -
  let ?es = "hub sys"
  let ?es' = "?es\<lparr>heap := (\<lambda>c. if c \<in> set (spec_targets em ?es) \<and> \<not> expired (heap ?es c)
                               \<and> inbox (heap ?es c) = Parked
                            then spec_handoff em (heap ?es c) else heap ?es c)\<rparr>"
  from assms have wf: "wf ?es" and mem: "\<forall>c \<in> set (members ?es). c < next_consumer sys"
    by (simp_all add: sys_inv_def)
  have res: "recv_messageRouter em ?es = Inr ?es'" using wf by (rule messageRouter_result)
  have m: "members ?es' = members ?es" by (simp add: members_def)
  have "wf ?es'" using wf res by (rule wf_messageRouter)
  moreover have "\<forall>c \<in> set (members ?es'). c < next_consumer sys"
    unfolding m by (rule mem)
  moreover have "\<forall>j < length (parked sys). \<forall>c. parked sys ! j = Some (Join c) \<longrightarrow>
         c \<notin> set (members ?es') \<and> inbox (heap ?es' c) \<noteq> Closed \<and> delivered (heap ?es' c) = []"
  proof (intro allI impI)
    fix j c
    assume j: "j < length (parked sys)" and jc: "parked sys ! j = Some (Join c)"
    note p = sys_inv_pending [OF assms j jc]
    from p(1) targets_members [of em ?es] have "c \<notin> set (spec_targets em ?es)" by blast
    with p show "c \<notin> set (members ?es') \<and> inbox (heap ?es' c) \<noteq> Closed
        \<and> delivered (heap ?es' c) = []"
      unfolding m by simp
  qed
  moreover have "\<forall>c. delivered (heap ?es c) \<noteq> [] \<longrightarrow> delivered (heap ?es' c) \<noteq> []"
    by (simp add: spec_handoff_def)
  ultimately have "sys_inv (continue_with (Inr ?es') (sys\<lparr>accesses := a\<rparr>))" for a
    by (rule sys_inv_moved [OF assms])
  with res show ?thesis by simp
qed

lemma dispatch_CloseTopic:
  assumes "sys_inv sys"
  shows "sys_inv (actionDispatcher (CloseTopic name) sys)"
proof -
  let ?es = "hub sys"
  from assms have wf: "wf ?es" and mem: "\<forall>c \<in> set (members ?es). c < next_consumer sys"
    by (simp_all add: sys_inv_def)
  have "\<exists>es'. recv_closeChannel name ?es = Inr es'"
  proof (cases "name = globalChannel")
    case True
    with close_global [OF wf] show ?thesis by simp
  next
    case False
    show ?thesis
    proof (cases "map_of (consumers ?es) name")
      case None
      with False show ?thesis by (simp add: recv_closeChannel_def)
    next
      case (Some cs)
      from close_named [OF wf False Some] show ?thesis by simp
    qed
  qed
  then obtain es' where res: "recv_closeChannel name ?es = Inr es'" ..
  note fr = closeChannel_frame [OF wf res]
  have "wf es'" using wf res by (rule wf_closeChannel)
  moreover have "\<forall>c \<in> set (members es'). c < next_consumer sys" using fr mem by blast
  moreover have "\<forall>j < length (parked sys). \<forall>c. parked sys ! j = Some (Join c) \<longrightarrow>
         c \<notin> set (members es') \<and> inbox (heap es' c) \<noteq> Closed \<and> delivered (heap es' c) = []"
  proof (intro allI impI)
    fix j c
    assume j: "j < length (parked sys)" and jc: "parked sys ! j = Some (Join c)"
    note p = sys_inv_pending [OF assms j jc]
    from fr p(1) have "heap es' c = heap ?es c" "c \<notin> set (members es')" by blast+
    with p show "c \<notin> set (members es') \<and> inbox (heap es' c) \<noteq> Closed
        \<and> delivered (heap es' c) = []"
      by simp
  qed
  moreover have "\<forall>c. delivered (heap ?es c) \<noteq> [] \<longrightarrow> delivered (heap es' c) \<noteq> []"
    using fr by simp
  ultimately have "sys_inv (continue_with (Inr es') (sys\<lparr>accesses := a\<rparr>))" for a
    by (rule sys_inv_moved [OF assms])
  with res show ?thesis by simp
qed

lemma dispatch_Stop:
  assumes "sys_inv sys"
  shows "sys_inv (actionDispatcher Stop sys)"
  using assms by (simp add: sys_inv_located)

lemma dispatch_Join:
  assumes "sys_inv sys"
    and "c0 \<in> set (workers sys)" "c0 \<notin> set (members (hub sys))" "inbox (heap (hub sys) c0) \<noteq> Closed"
    and "\<forall>j < length (parked sys). parked sys ! j \<noteq> Some (Join c0)"
  shows "sys_inv (actionDispatcher (Join c0) sys)"
proof -
  let ?es = "hub sys"
  let ?es' = "recv_addConsumer c0 ?es"
  from assms(1) have wf: "wf ?es" and mem: "\<forall>c \<in> set (members ?es). c < next_consumer sys"
    and wk: "\<forall>c \<in> set (workers sys). c < next_consumer sys"
    by (simp_all add: sys_inv_def)
  from wf have keys: "distinct (map fst (consumers ?es))" by (simp add: wf_def)
  from wk assms(2) have c0N: "c0 < next_consumer sys" by blast
  have sub: "set (members ?es') \<subseteq> insert c0 (set (members ?es))"
    using keys by (rule addConsumer_members)
  have heap': "heap ?es' = heap ?es" by (simp add: recv_addConsumer_def)
  have "wf ?es'" using wf assms(3,4) by (rule wf_addConsumer)
  moreover have "\<forall>c \<in> set (members ?es'). c < next_consumer sys"
    using sub mem c0N by blast
  moreover have "\<forall>j < length (parked sys). \<forall>c. parked sys ! j = Some (Join c) \<longrightarrow>
         c \<notin> set (members ?es') \<and> inbox (heap ?es' c) \<noteq> Closed \<and> delivered (heap ?es' c) = []"
  proof (intro allI impI)
    fix j c
    assume j: "j < length (parked sys)" and jc: "parked sys ! j = Some (Join c)"
    note p = sys_inv_pending [OF assms(1) j jc]
    from assms(5) j jc have "c \<noteq> c0" by auto
    with p(1) sub have "c \<notin> set (members ?es')" by blast
    with p show "c \<notin> set (members ?es') \<and> inbox (heap ?es' c) \<noteq> Closed
        \<and> delivered (heap ?es' c) = []"
      by (simp add: heap')
  qed
  moreover have "\<forall>c. delivered (heap ?es c) \<noteq> [] \<longrightarrow> delivered (heap ?es' c) \<noteq> []"
    by (simp add: heap')
  ultimately have "sys_inv (continue_with (Inr ?es') (sys\<lparr>accesses := a\<rparr>))" for a
    by (rule sys_inv_moved [OF assms(1)])
  then show ?thesis by simp
qed

lemma dispatch_Expire:
  assumes "sys_inv sys" and "delivered (heap (hub sys) c0) \<noteq> []"
  shows "sys_inv (actionDispatcher (Expire c0) sys)"
proof (cases "recv_expireConsumer c0 (hub sys)")
  case (Inl p)
  with sys_inv_panicked [OF assms(1)] show ?thesis by simp
next
  case (Inr es')
  let ?es = "hub sys"
  from assms(1) have wf: "wf ?es" and mem: "\<forall>c \<in> set (members ?es). c < next_consumer sys"
    by (simp_all add: sys_inv_def)
  from wf have keys: "distinct (map fst (consumers ?es))" by (simp add: wf_def)
  note fr = expireConsumer_frame [OF keys Inr]
  have "wf es'" using wf Inr by (rule wf_expireConsumer)
  moreover have "\<forall>c \<in> set (members es'). c < next_consumer sys" using fr mem by blast
  moreover have "\<forall>j < length (parked sys). \<forall>c. parked sys ! j = Some (Join c) \<longrightarrow>
         c \<notin> set (members es') \<and> inbox (heap es' c) \<noteq> Closed \<and> delivered (heap es' c) = []"
  proof (intro allI impI)
    fix j c
    assume j: "j < length (parked sys)" and jc: "parked sys ! j = Some (Join c)"
    note p = sys_inv_pending [OF assms(1) j jc]
    from p(3) assms(2) have "c \<noteq> c0" by auto
    with fr p(1) have "heap es' c = heap ?es c" "c \<notin> set (members es')" by blast+
    with p show "c \<notin> set (members es') \<and> inbox (heap es' c) \<noteq> Closed
        \<and> delivered (heap es' c) = []"
      by simp
  qed
  moreover have "\<forall>c. delivered (heap ?es c) \<noteq> [] \<longrightarrow> delivered (heap es' c) \<noteq> []"
    using fr by simp
  ultimately have "sys_inv (continue_with (Inr es') (sys\<lparr>accesses := a\<rparr>))" for a
    by (rule sys_inv_moved [OF assms(1)])
  with Inr show ?thesis by simp
qed

lemma sys_inv_dispatch:
  assumes inv: "sys_inv sys" and i: "i < length (parked sys)" and r: "parked sys ! i = Some req"
  shows "sys_inv (actionDispatcher req (sys\<lparr>parked := (parked sys)[i := None]\<rparr>))"
proof -
  let ?sys1 = "sys\<lparr>parked := (parked sys)[i := None]\<rparr>"
  have inv1: "sys_inv ?sys1" using inv by (rule sys_inv_taken)
  from inv have jo: "joins_parked_ok sys" and ex: "expiries_parked_ok sys"
    by (simp_all add: sys_inv_def)
  show ?thesis
  proof (cases req)
    case (Publish em)
    with inv1 show ?thesis by (simp only: dispatch_Publish)
  next
    case (CloseTopic name)
    with inv1 show ?thesis by (simp only: dispatch_CloseTopic)
  next
    case Stop
    with inv1 show ?thesis by (simp only: dispatch_Stop)
  next
    case (Join c0)
    with r have r': "parked sys ! i = Some (Join c0)" by simp
    note c0 = joins_parked_okD(1-3) [OF jo i r']
    have "\<forall>j < length (parked ?sys1). parked ?sys1 ! j \<noteq> Some (Join c0)"
      using taken_join_gone [OF jo i r'] by simp
    with c0 have "sys_inv (actionDispatcher (Join c0) ?sys1)"
      by (intro dispatch_Join [OF inv1]) simp_all
    with Join show ?thesis by simp
  next
    case (Expire c0)
    with r have r': "parked sys ! i = Some (Expire c0)" by simp
    from expiries_parked_okD(2) [OF ex i r']
    have "sys_inv (actionDispatcher (Expire c0) ?sys1)"
      by (intro dispatch_Expire [OF inv1]) simp
    with Expire show ?thesis by simp
  qed
qed

lemma joins_parked_append:
  assumes "joins_parked_ok sys" and "\<forall>c. x \<noteq> Some (Join c)"
  shows "joins_parked_ok (sys\<lparr>parked := parked sys @ [x]\<rparr>)"
  unfolding joins_parked_ok_def
proof (intro allI impI)
  let ?sys1 = "sys\<lparr>parked := parked sys @ [x]\<rparr>"
  have old: "k < length (parked sys) \<and> parked sys ! k = Some (Join c)"
    if "k < length (parked ?sys1)" "parked ?sys1 ! k = Some (Join c)" for k c
  proof (cases "k < length (parked sys)")
    case True
    with that show ?thesis by (simp add: nth_append)
  next
    case False
    with that have "x = Some (Join c)" by (simp add: nth_append less_Suc_eq)
    with assms(2) show ?thesis by simp
  qed
  fix i c
  assume "i < length (parked ?sys1)" and "parked ?sys1 ! i = Some (Join c)"
  then have i: "i < length (parked sys)" "parked sys ! i = Some (Join c)" using old by blast+
  have "k = i" if "k < length (parked ?sys1)" "parked ?sys1 ! k = Some (Join c)" for k
  proof -
    from old [OF that] have "k < length (parked sys)" "parked sys ! k = Some (Join c)" by simp_all
    then show ?thesis by (rule joins_parked_okD(5) [OF assms(1) i])
  qed
  with joins_parked_okD(1-4) [OF assms(1) i]
  show "c \<in> set (workers ?sys1) \<and> c \<notin> set (members (hub ?sys1)) \<and>
        inbox (heap (hub ?sys1) c) \<noteq> Closed \<and> delivered (heap (hub ?sys1) c) = [] \<and>
        (\<forall>k < length (parked ?sys1). parked ?sys1 ! k = Some (Join c) \<longrightarrow> k = i)"
    by simp
qed

lemma expiries_parked_append:
  assumes "expiries_parked_ok sys"
    and "\<forall>c. x = Some (Expire c) \<longrightarrow> c \<in> set (workers sys) \<and> delivered (heap (hub sys) c) \<noteq> []"
  shows "expiries_parked_ok (sys\<lparr>parked := parked sys @ [x]\<rparr>)"
  unfolding expiries_parked_ok_def
proof (intro allI impI)
  let ?sys1 = "sys\<lparr>parked := parked sys @ [x]\<rparr>"
  fix i c
  assume i: "i < length (parked ?sys1)" and ic: "parked ?sys1 ! i = Some (Expire c)"
  show "c \<in> set (workers ?sys1) \<and> delivered (heap (hub ?sys1) c) \<noteq> []"
  proof (cases "i < length (parked sys)")
    case True
    with ic have "parked sys ! i = Some (Expire c)" by (simp add: nth_append)
    from expiries_parked_okD [OF assms(1) True this] show ?thesis by simp
  next
    case False
    with i ic have "x = Some (Expire c)" by (simp add: nth_append less_Suc_eq)
    with assms(2) show ?thesis by simp
  qed
qed

lemma sys_inv_parked:
  assumes "sys_inv sys" and "\<forall>c. x \<noteq> Some (Join c)"
    and "\<forall>c. x = Some (Expire c) \<longrightarrow> c \<in> set (workers sys) \<and> delivered (heap (hub sys) c) \<noteq> []"
  shows "sys_inv (sys\<lparr>parked := parked sys @ [x]\<rparr>)"
proof -
  from assms(1) have j: "joins_parked_ok sys" and e: "expiries_parked_ok sys"
    by (simp_all add: sys_inv_def)
  from joins_parked_append [OF j assms(2)] expiries_parked_append [OF e assms(3)] assms(1)
  show ?thesis by (simp add: sys_inv_def)
qed

lemma exec_Call: "sys_inv sys \<Longrightarrow> sys_inv (exec (Call r) sys)"
  by (cases r) (simp_all add: sys_inv_parked)

lemma exec_Ask: "sys_inv sys \<Longrightarrow> sys_inv (exec (Ask q) sys)"
proof -
  assume "sys_inv sys"
  then have "sys_inv (sys\<lparr>parked := parked sys @ [None]\<rparr>)"
    by (rule sys_inv_parked) simp_all
  then have "sys_inv (sys\<lparr>parked := parked sys @ [None], accesses := a, answers := b\<rparr>)" for a b
    by (simp add: sys_inv_answered sys_inv_logged)
  then show ?thesis by simp
qed

text \<open>A change of one consumer that keeps its inbox open or closed as it was, its topic and
  the messages it received.\<close>

lemma sys_inv_cell:
  assumes "sys_inv sys"
    and "inbox cr' = Closed \<longleftrightarrow> inbox (heap (hub sys) c) = Closed"
    and "channel cr' = channel (heap (hub sys) c)"
    and "delivered cr' = delivered (heap (hub sys) c)"
  shows "sys_inv (sys\<lparr>hub := (hub sys)\<lparr>heap := (heap (hub sys))(c := cr')\<rparr>\<rparr>)"
proof -
  let ?es = "hub sys"
  let ?es' = "?es\<lparr>heap := (heap ?es)(c := cr')\<rparr>"
  from assms(1) have wf: "wf ?es" and mem: "\<forall>c \<in> set (members ?es). c < next_consumer sys"
    and ex: "expiries_parked_ok sys"
    by (simp_all add: sys_inv_def)
  have m: "members ?es' = members ?es" by (simp add: members_def)
  have "wf ?es'"
    using wf by (rule wf_heap_cong) (simp_all add: assms(2,3))
  moreover have "\<forall>c \<in> set (members ?es'). c < next_consumer sys"
    unfolding m by (rule mem)
  moreover have "\<forall>j < length (parked sys). \<forall>x. parked sys ! j = Some (Join x) \<longrightarrow>
         x \<notin> set (members ?es') \<and> inbox (heap ?es' x) \<noteq> Closed \<and> delivered (heap ?es' x) = []"
  proof (intro allI impI)
    fix j x
    assume j: "j < length (parked sys)" and jx: "parked sys ! j = Some (Join x)"
    note p = sys_inv_pending [OF assms(1) j jx]
    with assms(2,4) show "x \<notin> set (members ?es') \<and> inbox (heap ?es' x) \<noteq> Closed
        \<and> delivered (heap ?es' x) = []"
      unfolding m by (cases "x = c") simp_all
  qed
  moreover have "\<forall>x. delivered (heap ?es x) \<noteq> [] \<longrightarrow> delivered (heap ?es' x) \<noteq> []"
    using assms(4) by simp
  ultimately show ?thesis by (rule sys_inv_hub [OF assms(1)])
qed

lemma exec_Park: "sys_inv sys \<Longrightarrow> sys_inv (exec (Park c) sys)"
  by (simp add: sys_inv_cell)

lemma exec_Report:
  assumes "sys_inv sys"
  shows "sys_inv (exec (Report c) sys)"
proof (cases "c \<in> set (workers sys) \<and> delivered (heap (hub sys) c) \<noteq> []
         \<and> \<not> expired (heap (hub sys) c) \<and> ExpireConsumer \<notin> set (closed_chans (hub sys))")
  case False
  with assms show ?thesis by auto
next
  case True
  let ?cr' = "(heap (hub sys) c)\<lparr>expired := True,
      connection := (connection (heap (hub sys) c))\<lparr>closed := True\<rparr>\<rparr>"
  let ?sys1 = "sys\<lparr>hub := (hub sys)\<lparr>heap := (heap (hub sys))(c := ?cr')\<rparr>\<rparr>"
  have "sys_inv ?sys1" using assms by (rule sys_inv_cell) simp_all
  then have "sys_inv (?sys1\<lparr>parked := parked ?sys1 @ [Some (Expire c)]\<rparr>)"
    using True by (intro sys_inv_parked) simp_all
  with True show ?thesis by simp
qed

lemma sys_inv_subscribed:
  assumes inv: "sys_inv sys" and cr: "inbox cr \<noteq> Closed" "delivered cr = []"
  shows "sys_inv (sys\<lparr>hub := (hub sys)\<lparr>heap := (heap (hub sys))(next_consumer sys := cr)\<rparr>,
                     workers := workers sys @ [next_consumer sys],
                     next_consumer := Suc (next_consumer sys),
                     parked := parked sys @ [Some (Join (next_consumer sys))]\<rparr>)"
    (is "sys_inv ?sys'")
proof -
  let ?N = "next_consumer sys"
  let ?es = "hub sys"
  let ?es' = "?es\<lparr>heap := (heap ?es)(?N := cr)\<rparr>"
  from inv have wf: "wf ?es" and mem: "\<forall>c \<in> set (members ?es). c < ?N"
    and wk: "\<forall>c \<in> set (workers sys). c < ?N"
    and jo: "joins_parked_ok sys" and ex: "expiries_parked_ok sys"
    by (simp_all add: sys_inv_def)
  have m: "members ?es' = members ?es" by (simp add: members_def)
  from mem have fresh: "?N \<notin> set (members ?es)" by blast
  from wk have unborn: "?N \<notin> set (workers sys)" by blast
  have "wf ?es'"
    using wf by (rule wf_heap_cong) (use fresh in auto)
  moreover have "\<forall>c \<in> set (members ?es'). c < Suc ?N"
    unfolding m using mem by (simp add: less_Suc_eq)
  moreover have "\<forall>c \<in> set (workers sys @ [?N]). c < Suc ?N"
    using wk by (simp add: less_Suc_eq)
  moreover have "joins_parked_ok ?sys'"
    unfolding joins_parked_ok_def
  proof (intro allI impI)
    fix i c
    assume i: "i < length (parked ?sys')" and ic: "parked ?sys' ! i = Some (Join c)"
    show "c \<in> set (workers ?sys') \<and> c \<notin> set (members (hub ?sys')) \<and>
        inbox (heap (hub ?sys') c) \<noteq> Closed \<and> delivered (heap (hub ?sys') c) = [] \<and>
        (\<forall>k < length (parked ?sys'). parked ?sys' ! k = Some (Join c) \<longrightarrow> k = i)"
    proof (cases "i < length (parked sys)")
      case True
      with ic have old: "parked sys ! i = Some (Join c)" by (simp add: nth_append)
      note p = joins_parked_okD [OF jo True old]
      from p(1) unborn have ne: "c \<noteq> ?N" by blast
      have "k = i" if "k < length (parked ?sys')" "parked ?sys' ! k = Some (Join c)" for k
      proof (cases "k < length (parked sys)")
        case True
        with that have "parked sys ! k = Some (Join c)" by (simp add: nth_append)
        with True show ?thesis by (rule p(5))
      next
        case False
        with that have "c = ?N" by (simp add: nth_append less_Suc_eq)
        with ne show ?thesis by simp
      qed
      with p(1-4) ne show ?thesis by (simp add: m)
    next
      case False
      with i have i': "i = length (parked sys)" by simp
      with ic have c: "c = ?N" by simp
      have "k = i" if "k < length (parked ?sys')" "parked ?sys' ! k = Some (Join c)" for k
      proof (cases "k < length (parked sys)")
        case True
        with that c have "parked sys ! k = Some (Join ?N)" by (simp add: nth_append)
        from joins_parked_okD(1) [OF jo True this] unborn show ?thesis by simp
      next
        case False
        with that i' show ?thesis by simp
      qed
      with c fresh cr show ?thesis by (simp add: m)
    qed
  qed
  moreover have "expiries_parked_ok ?sys'"
    unfolding expiries_parked_ok_def
  proof (intro allI impI)
    fix i c
    assume i: "i < length (parked ?sys')" and ic: "parked ?sys' ! i = Some (Expire c)"
    from i ic have i': "i < length (parked sys)"
      by (cases "i < length (parked sys)") (simp_all add: nth_append less_Suc_eq)
    with ic have old: "parked sys ! i = Some (Expire c)" by (simp add: nth_append)
    note p = expiries_parked_okD [OF ex i' old]
    from p(1) unborn have "c \<noteq> ?N" by blast
    with p show "c \<in> set (workers ?sys') \<and> delivered (heap (hub ?sys') c) \<noteq> []"
      by simp
  qed
  ultimately show ?thesis by (simp add: sys_inv_def)
qed

lemma exec_Subscribe:
  assumes "sys_inv sys"
  shows "sys_inv (exec (Subscribe name x) sys)"
proof (cases "name \<noteq> [] \<and> name \<noteq> globalChannel \<and> \<not> hijack_fails x \<and> preamble_write x = WriteOk")
  case True
  let ?cr = "\<lparr>connection = conn_write (headersData (settings (hub sys))) (client x), inbox = Busy,
      delivered = [], channel = name, expired = False\<rparr>"
  have "sys_inv (sys\<lparr>hub := (hub sys)\<lparr>heap := (heap (hub sys))(next_consumer sys := ?cr)\<rparr>,
                     workers := workers sys @ [next_consumer sys],
                     next_consumer := Suc (next_consumer sys),
                     parked := parked sys @ [Some (Join (next_consumer sys))]\<rparr>)"
    using assms by (rule sys_inv_subscribed) simp_all
  with True show ?thesis by (simp add: subscribeHandler_def newConsumer_failure)
next
  case False
  then have "fst (subscribeHandler name x sys) = sys"
    by (cases "preamble_write x") (auto simp: subscribeHandler_def newConsumer_failure)
  with assms show ?thesis by simp
qed

lemma exec_Sync:
  assumes "sys_inv sys"
  shows "sys_inv (exec (Sync s r) sys)"
proof (cases "sending sys s")
  case None
  with assms show ?thesis by simp
next
  case (Some m)
  obtain ch v where m: "m = (ch, v)" by (cases m)
  show ?thesis
  proof (cases "s \<noteq> r \<and> ch \<in> set (receiving sys r) \<and> ch \<notin> set (closed_chans (hub sys))")
    case False
    with Some m assms show ?thesis by auto
  next
    case True
    then have r: "r = Dispatcher" and at: "dispatcher_at sys = Select"
      by (cases r; simp split: if_splits)+
    with True obtain i where s: "s = Caller i" by (cases s) auto
    from Some m s have i: "i < length (parked sys)" and v: "parked sys ! i = Some v"
      by (auto split: if_splits option.splits)
    from sys_inv_dispatch [OF assms i v] True Some m s r show ?thesis by simp
  qed
qed

lemma sys_inv_exec: "sys_inv sys \<Longrightarrow> sys_inv (exec e sys)"
  by (cases e) (simp_all only: exec_Call exec_Ask exec_Subscribe exec_Park exec_Report exec_Sync)

lemma sys_inv_run: "sys_inv sys \<Longrightarrow> sys_inv (run evs sys)"
  by (induction evs arbitrary: sys) (simp_all add: sys_inv_exec)

lemma reachable_wf: "wf (hub (run evs (New st h)))"
  using sys_inv_run [OF sys_inv_New, of evs st h] by (simp add: sys_inv_def)

section \<open>The claims\<close>

subsection \<open>The codec\<close>

text \<open>
  Claim C2. For every event record, \<open>Message\<close> is the field lines in the fixed order id,
  event, data, each followed by a newline, and then one more newline. A field line is
  there only when its field is present (id not zero, event not empty, data not empty); it
  is the field name, a colon and a space, and the value; it is never empty and holds no
  newline. The id is a decimal numeral of digits only, whose value is the id. The event
  label is the label with its newlines deleted. The data lines are the segments of the
  payload between newlines, empty ones included: one more than the payload has newlines,
  and joined by newlines they are the payload. Read back line by line, the frame is its
  field lines, one blank line, and nothing after the last newline: it ends with exactly one
  blank line; a record with no field populated renders to the single newline.
\<close>

theorem Message_wire_format:
  "Message em = concat (map (\<lambda>l. l @ [newline]) (spec_frame_lines em)) @ [newline]
   \<and> (\<forall>l \<in> set (spec_frame_lines em). l \<noteq> [] \<and> newline \<notin> set l)
   \<and> Split (Message em) newline = spec_frame_lines em @ [[], []]
   \<and> (\<exists>body. Message em = body @ [newline] \<and>
        (body = [] \<or> (\<exists>pre c. body = pre @ [c, newline] \<and> c \<noteq> newline)))
   \<and> set (decimal (Id' em)) \<subseteq> set digits
   \<and> spec_decimal_value (decimal (Id' em)) = Id' em
   \<and> Replace (Event em) newline [] = filter (\<lambda>c. c \<noteq> newline) (Event em)
   \<and> spec_join (Split (Data em) newline) newline = Data em
   \<and> length (Split (Data em) newline) = Suc (length (filter (\<lambda>c. c = newline) (Data em)))
   \<and> (Id' em = 0 \<and> Event em = [] \<and> Data em = [] \<longrightarrow> Message em = [newline])"
proof -
  have "Id' em = 0 \<and> Event em = [] \<and> Data em = [] \<longrightarrow> Message em = [newline]"
    by (simp add: Message_def)
  then show ?thesis
    using Message_lines [of em] frame_lines_proper [of _ em] Message_Split [of em]
      Message_blank_end [of em] decimal_digits [of "Id' em"] decimal_value [of "Id' em"]
      Replace_empty [of "Event em" newline] Split_join [of "Data em" newline]
      Split_length [of "Data em" newline]
    by blast
qed

theorem Message_wire_format_witness:
  "Message \<lparr>Id' = 1, Event = ''foo'', Data = ''bar'', Channel = ''my-topic''\<rparr>
     = ''id: 1'' @ [newline] @ ''event: foo'' @ [newline] @ ''data: bar'' @ [newline] @ [newline]
   \<and> Message \<lparr>Id' = 0, Event = [], Data = [], Channel = ''my-topic''\<rparr> = [newline]"
  using Message_wire_format [of "\<lparr>Id' = 1, Event = ''foo'', Data = ''bar'', Channel = ''my-topic''\<rparr>"]
    Message_wire_format [of "\<lparr>Id' = 0, Event = [], Data = [], Channel = ''my-topic''\<rparr>"]
  by (simp add: spec_frame_lines_def decimal.simps digits_def newline_def)

text \<open>
  Claim C3. A stream of accepted objects builds successfully, and each of id, event and
  data is the value of the last object that has the field, or the zero value when no
  object has it: appending an object overwrites exactly the fields it has and leaves the
  others as the shorter stream built them. The stream of \<^verbatim>\<open>{"id":1}\<close> and
  \<^verbatim>\<open>{"event":"x"}\<close> gives id 1 and event x. The empty stream succeeds with
  all three fields zero. A stream with a rejected value anywhere fails with the decode
  error. The topic of a built record is \<^verbatim>\<open>default\<close> for the empty topic name
  and the given name otherwise.
\<close>

theorem newEventMessage_merge:
  "newEventMessage (map Object objs) topic =
     Inr \<lparr>Id' = last (0 # List.map_filter id_field objs),
          Event = last ([] # List.map_filter event_field objs),
          Data = last ([] # List.map_filter data_field objs),
          Channel = (if topic = [] then ''default'' else topic)\<rparr>
   \<and> (\<exists>em em'. newEventMessage (map Object objs) topic = Inr em
        \<and> newEventMessage (map Object (objs @ [obj])) topic = Inr em'
        \<and> Id' em' = (case id_field obj of None \<Rightarrow> Id' em | Some v \<Rightarrow> v)
        \<and> Event em' = (case event_field obj of None \<Rightarrow> Event em | Some v \<Rightarrow> v)
        \<and> Data em' = (case data_field obj of None \<Rightarrow> Data em | Some v \<Rightarrow> v)
        \<and> Channel em' = Channel em)
   \<and> newEventMessage
        [Object \<lparr>id_field = Some 1, event_field = None, data_field = None\<rparr>,
         Object \<lparr>id_field = None, event_field = Some ''x'', data_field = None\<rparr>] topic
      = Inr \<lparr>Id' = 1, Event = ''x'', Data = [],
             Channel = (if topic = [] then ''default'' else topic)\<rparr>
   \<and> newEventMessage [] topic =
       Inr \<lparr>Id' = 0, Event = [], Data = [],
            Channel = (if topic = [] then ''default'' else topic)\<rparr>
   \<and> (Malformed \<in> set stream \<longrightarrow> newEventMessage stream topic = Inl DecodeError)"
proof -
  have closed_form: "newEventMessage (map Object os) topic =
     Inr \<lparr>Id' = last (0 # List.map_filter id_field os),
          Event = last ([] # List.map_filter event_field os),
          Data = last ([] # List.map_filter data_field os),
          Channel = (if topic = [] then ''default'' else topic)\<rparr>" for os
    by (simp add: newEventMessage_def decode_loop_objects zero_eventMessage_def)
  have step: "\<exists>em em'. newEventMessage (map Object objs) topic = Inr em
        \<and> newEventMessage (map Object (objs @ [obj])) topic = Inr em'
        \<and> Id' em' = (case id_field obj of None \<Rightarrow> Id' em | Some v \<Rightarrow> v)
        \<and> Event em' = (case event_field obj of None \<Rightarrow> Event em | Some v \<Rightarrow> v)
        \<and> Data em' = (case data_field obj of None \<Rightarrow> Data em | Some v \<Rightarrow> v)
        \<and> Channel em' = Channel em"
    unfolding closed_form
    by (simp add: map_filter_simps map_filter_snoc split: option.splits)
  have example: "newEventMessage
        [Object \<lparr>id_field = Some 1, event_field = None, data_field = None\<rparr>,
         Object \<lparr>id_field = None, event_field = Some ''x'', data_field = None\<rparr>] topic
      = Inr \<lparr>Id' = 1, Event = ''x'', Data = [],
             Channel = (if topic = [] then ''default'' else topic)\<rparr>"
    by (simp add: newEventMessage_def Decode_def zero_eventMessage_def)
  have empty: "newEventMessage [] topic =
       Inr \<lparr>Id' = 0, Event = [], Data = [],
            Channel = (if topic = [] then ''default'' else topic)\<rparr>"
    by (simp add: newEventMessage_def zero_eventMessage_def)
  have malformed: "Malformed \<in> set stream \<longrightarrow> newEventMessage stream topic = Inl DecodeError"
    by (simp add: newEventMessage_def decode_loop_Malformed)
  from closed_form [of objs] step example empty malformed show ?thesis by blast
qed

theorem newEventMessage_merge_witness:
  "newEventMessage
     [Object \<lparr>id_field = Some 1, event_field = None, data_field = None\<rparr>, Malformed] ''news''
   = Inl DecodeError"
  using newEventMessage_merge
    [of "[]" "''news''" "\<lparr>id_field = None, event_field = None, data_field = None\<rparr>"
        "[Object \<lparr>id_field = Some 1, event_field = None, data_field = None\<rparr>, Malformed]"]
  by simp

subsection \<open>The dispatcher and the worker\<close>

text \<open>
  Claim C1. Processing a publish request hands the message to the consumers the request is
  for (every consumer of every topic for the broadcast name, the named topic's list
  otherwise) and to those only: a consumer gets it exactly when it is one of them, its
  expired flag is false and its worker is parked in the receive of its inbox; every other
  consumer, a busy one included, is left as it was, and the step returns without waiting.
  A named topic without a map entry leaves the whole state as it was, without an error.
  The one state in which the step does not return is a state with a consumer the request
  is for, not expired, whose inbox has been closed (the send panics); the invariant
  \<open>wf\<close> excludes it, and every state the system reaches from \<^verbatim>\<open>New\<close>
  satisfies \<open>wf\<close> (lemma \<open>reachable_wf\<close>).
\<close>

theorem publish_fanout:
  "(if \<exists>c \<in> set (spec_targets em es). \<not> expired (heap es c) \<and> inbox (heap es c) = Closed
    then recv_messageRouter em es = Inl SendOnClosedChannel
    else recv_messageRouter em es =
           Inr (es\<lparr>heap := (\<lambda>c. if c \<in> set (spec_targets em es) \<and> \<not> expired (heap es c)
                                     \<and> inbox (heap es c) = Parked
                                  then spec_handoff em (heap es c) else heap es c)\<rparr>))
   \<and> (Channel em \<noteq> globalChannel \<and> map_of (consumers es) (Channel em) = None
        \<longrightarrow> recv_messageRouter em es = Inr es)"
proof -
  have absent: "Channel em \<noteq> globalChannel \<and> map_of (consumers es) (Channel em) = None
        \<longrightarrow> recv_messageRouter em es = Inr es"
    by (simp add: recv_messageRouter_def)
  show ?thesis
  proof (cases "\<exists>c \<in> set (spec_targets em es). \<not> expired (heap es c) \<and> inbox (heap es c) = Closed")
    case True
    then have "deliver em (spec_targets em es) (heap es) = Inl SendOnClosedChannel"
      by (rule deliver_panics)
    with True absent show ?thesis by (simp add: recv_messageRouter_targets)
  next
    case False
    then have "\<forall>c \<in> set (spec_targets em es). \<not> expired (heap es c) \<longrightarrow> inbox (heap es c) \<noteq> Closed"
      by blast
    then have "deliver em (spec_targets em es) (heap es) =
      Inr (\<lambda>c. if c \<in> set (spec_targets em es) \<and> \<not> expired (heap es c) \<and> inbox (heap es c) = Parked
              then spec_handoff em (heap es c) else heap es c)"
      by (rule deliver_result)
    with False absent show ?thesis by (simp add: recv_messageRouter_targets)
  qed
qed

theorem publish_fanout_witness:
  "recv_messageRouter (example_message ''nobody'') example_hub
     = Inr example_hub
   \<and> (\<exists>es'. recv_messageRouter (example_message ''news'') example_hub
          = Inr es'
        \<and> delivered (heap es' 0) = [(example_message ''news'')]
        \<and> heap es' 1 = heap example_hub 1 \<and> heap es' 2 = heap example_hub 2)"
  using publish_fanout [of "example_message ''nobody''" example_hub]
    publish_fanout [of "example_message ''news''" example_hub]
  by (simp add: example_defs spec_targets_def spec_handoff_def)

text \<open>
  Claim C5, on the code. The case of \<^verbatim>\<open>expireConsumer\<close> closes the inbox of the
  reported consumer whenever the consumer's topic has a map entry, whether or not the
  consumer is still in the topic's list. In the run below, from a new hub, consumer 0 joins
  news and is handed a message; news is closed, which closes the inbox of consumer 0 and
  deletes the entry; consumer 1 joins news, which makes the entry anew; the write of
  consumer 0 fails and its worker reports it. Before the dispatcher takes the report it is
  at its \<^verbatim>\<open>select\<close>, the map lists consumer 1 only and the inbox of consumer 0 is
  closed; processing the report closes that inbox a second time, and the dispatcher
  panics. The claim has the report of a consumer that is already gone as a step that
  changes nothing and does not fail.
\<close>

theorem expire_after_reopen_panics:
  "dispatcher_at
     (run [Subscribe ''news'' example_exchange, Sync (Caller 0) Dispatcher, Park 0,
           Call (Publish (example_message ''news'')), Sync (Caller 1) Dispatcher,
           Call (CloseTopic ''news''), Sync (Caller 2) Dispatcher,
           Subscribe ''news'' example_exchange, Sync (Caller 3) Dispatcher,
           Report 0, Sync (Caller 4) Dispatcher]
        (New None (\<lambda>c. example_consumer [] Busy)))
     = Panicked CloseOfClosedChannel
   \<and> dispatcher_at
     (run [Subscribe ''news'' example_exchange, Sync (Caller 0) Dispatcher, Park 0,
           Call (Publish (example_message ''news'')), Sync (Caller 1) Dispatcher,
           Call (CloseTopic ''news''), Sync (Caller 2) Dispatcher,
           Subscribe ''news'' example_exchange, Sync (Caller 3) Dispatcher,
           Report 0]
        (New None (\<lambda>c. example_consumer [] Busy)))
     = Select
   \<and> consumers (hub
     (run [Subscribe ''news'' example_exchange, Sync (Caller 0) Dispatcher, Park 0,
           Call (Publish (example_message ''news'')), Sync (Caller 1) Dispatcher,
           Call (CloseTopic ''news''), Sync (Caller 2) Dispatcher,
           Subscribe ''news'' example_exchange, Sync (Caller 3) Dispatcher,
           Report 0]
        (New None (\<lambda>c. example_consumer [] Busy))))
     = [(''news'', [1])]
   \<and> inbox (heap (hub
     (run [Subscribe ''news'' example_exchange, Sync (Caller 0) Dispatcher, Park 0,
           Call (Publish (example_message ''news'')), Sync (Caller 1) Dispatcher,
           Call (CloseTopic ''news''), Sync (Caller 2) Dispatcher,
           Subscribe ''news'' example_exchange, Sync (Caller 3) Dispatcher,
           Report 0]
        (New None (\<lambda>c. example_consumer [] Busy)))) 0)
     = Closed
   \<and> parked
     (run [Subscribe ''news'' example_exchange, Sync (Caller 0) Dispatcher, Park 0,
           Call (Publish (example_message ''news'')), Sync (Caller 1) Dispatcher,
           Call (CloseTopic ''news''), Sync (Caller 2) Dispatcher,
           Subscribe ''news'' example_exchange, Sync (Caller 3) Dispatcher,
           Report 0]
        (New None (\<lambda>c. example_consumer [] Busy)))
     = [None, None, None, None, Some (Expire 0)]"
  by (simp add: New_def example_defs subscribeHandler_def newConsumer_failure
      continue_with_def recv_addConsumer_def recv_messageRouter_def recv_closeChannel_def
      recv_expireConsumer_def send_nonblocking_def close_inbox_def Let_def)




text \<open>
  Claim C7. In a state that satisfies the invariant \<open>wf\<close>, as every state reached
  from \<^verbatim>\<open>New\<close> does (lemma \<open>reachable_wf\<close>), a topic-close request for the
  broadcast name closes the inbox of every consumer of every topic, changes no other
  consumer and leaves the map empty; a topic-close request for another name that has an
  entry closes the inbox of every consumer of that topic, changes no other consumer and
  deletes that entry only: the name has no entry afterwards, every other name keeps its
  list, and no consumer of another list is among those closed. A name without an entry
  leaves the state as it was.
\<close>

theorem closeChannel_effect:
  "wf es \<longrightarrow>
     recv_closeChannel globalChannel es =
       Inr (es\<lparr>heap := (\<lambda>c. if c \<in> set (members es)
                             then (heap es c)\<lparr>inbox := Closed\<rparr> else heap es c),
               consumers := []\<rparr>)
     \<and> (name \<noteq> globalChannel \<and> map_of (consumers es) name = Some cs \<longrightarrow>
          recv_closeChannel name es =
            Inr (es\<lparr>heap := (\<lambda>c. if c \<in> set cs
                                  then (heap es c)\<lparr>inbox := Closed\<rparr> else heap es c),
                    consumers := AList.delete name (consumers es)\<rparr>)
          \<and> map_of (AList.delete name (consumers es)) name = None
          \<and> (\<forall>other ds. other \<noteq> name \<and> map_of (consumers es) other = Some ds \<longrightarrow>
                map_of (AList.delete name (consumers es)) other = Some ds
                \<and> set ds \<inter> set cs = {}))
     \<and> (name \<noteq> globalChannel \<and> map_of (consumers es) name = None \<longrightarrow>
          recv_closeChannel name es = Inr es)"
proof (intro impI conjI allI)
  assume "wf es"
  then show "recv_closeChannel globalChannel es =
       Inr (es\<lparr>heap := (\<lambda>c. if c \<in> set (members es)
                             then (heap es c)\<lparr>inbox := Closed\<rparr> else heap es c),
               consumers := []\<rparr>)"
    by (rule close_global)
next
  assume "wf es" and "name \<noteq> globalChannel \<and> map_of (consumers es) name = Some cs"
  then show "recv_closeChannel name es =
            Inr (es\<lparr>heap := (\<lambda>c. if c \<in> set cs
                                  then (heap es c)\<lparr>inbox := Closed\<rparr> else heap es c),
                    consumers := AList.delete name (consumers es)\<rparr>)"
    by (simp add: close_named)
next
  show "map_of (AList.delete name (consumers es)) name = None"
    by (simp add: AList.delete_conv')
next
  fix other ds
  assume "other \<noteq> name \<and> map_of (consumers es) other = Some ds"
  then show "map_of (AList.delete name (consumers es)) other = Some ds"
    by (simp add: AList.delete_conv')
next
  fix other ds
  assume w: "wf es" and n: "name \<noteq> globalChannel \<and> map_of (consumers es) name = Some cs"
    and o: "other \<noteq> name \<and> map_of (consumers es) other = Some ds"
  from w have "distinct (map fst (consumers es))" "distinct (concat (map snd (consumers es)))"
    by (simp_all add: wf_def members_def)
  then have "set cs \<inter> set ds = {}"
    using n o by (intro other_members_untouched [of "consumers es" name cs other ds]) auto
  then show "set ds \<inter> set cs = {}" by auto
next
  assume "name \<noteq> globalChannel \<and> map_of (consumers es) name = None"
  then show "recv_closeChannel name es = Inr es"
    by (simp add: recv_closeChannel_def)
qed

theorem closeChannel_effect_witness:
  "(\<exists>es'. recv_closeChannel ''all'' example_hub = Inr es' \<and> consumers es' = []
       \<and> inbox (heap es' 0) = Closed \<and> inbox (heap es' 1) = Closed \<and> inbox (heap es' 2) = Closed)
   \<and> (\<exists>es'. recv_closeChannel ''news'' example_hub = Inr es' \<and> consumers es' = [(''sport'', [2])]
       \<and> inbox (heap es' 0) = Closed \<and> inbox (heap es' 1) = Closed
       \<and> heap es' 2 = heap example_hub 2)"
  using closeChannel_effect [of example_hub "''news''" "[0, 1]"] example_hub_wf
  by (simp add: example_hub_def example_consumer_def globalChannel_def members_def)

text \<open>
  Claim C10. Whenever processing a publish request returns, the map is the same list of
  entries as before, no request channel was closed and every consumer has the expired flag
  it had. It returns in every state that satisfies the invariant \<open>wf\<close>, as every
  state reached from \<^verbatim>\<open>New\<close> does (lemma \<open>reachable_wf\<close>).
\<close>

theorem publish_frame:
  "(\<forall>es'. recv_messageRouter em es = Inr es' \<longrightarrow>
      consumers es' = consumers es \<and> closed_chans es' = closed_chans es \<and>
      (\<forall>c. expired (heap es' c) = expired (heap es c)))
   \<and> (\<forall>p. recv_messageRouter em es = Inl p \<longrightarrow> \<not> wf es)
   \<and> (wf es \<longrightarrow> (\<exists>es'. recv_messageRouter em es = Inr es'))"
proof -
  have frame: "\<forall>es'. recv_messageRouter em es = Inr es' \<longrightarrow>
      consumers es' = consumers es \<and> closed_chans es' = closed_chans es \<and>
      (\<forall>c. expired (heap es' c) = expired (heap es c))"
    by (auto simp: recv_messageRouter_targets split: sum.splits dest: deliver_frame)
  have returns: "\<exists>es'. recv_messageRouter em es = Inr es'" if "wf es"
  proof -
    from that have "\<forall>c \<in> set (spec_targets em es). \<not> expired (heap es c) \<longrightarrow> inbox (heap es c) \<noteq> Closed"
      using wf_targets_open by blast
    then have "deliver em (spec_targets em es) (heap es) =
      Inr (\<lambda>c. if c \<in> set (spec_targets em es) \<and> \<not> expired (heap es c) \<and> inbox (heap es c) = Parked
              then spec_handoff em (heap es c) else heap es c)"
      by (rule deliver_result)
    then show ?thesis by (simp add: recv_messageRouter_targets)
  qed
  then have "\<forall>p. recv_messageRouter em es = Inl p \<longrightarrow> \<not> wf es" by auto
  with frame returns show ?thesis by blast
qed

theorem publish_frame_witness:
  "\<exists>es'. recv_messageRouter (example_message ''all'') example_hub
          = Inr es'
     \<and> consumers es' = [(''news'', [0, 1]), (''sport'', [2])]
     \<and> \<not> expired (heap es' 0) \<and> \<not> expired (heap es' 1) \<and> \<not> expired (heap es' 2)"
  using publish_frame [of "example_message ''all''" example_hub]
    example_hub_wf
  by (auto simp: example_hub_def example_consumer_def)

subsection \<open>Shutdown, subscribing and the queries\<close>

text \<open>
  Claim C4, on the code. When the dispatcher receives a stop request it goes to line 325,
  \<^verbatim>\<open>es.closeChannel <- globalChannel\<close>, a send on an unbuffered channel whose only
  receiver is the dispatcher's own \<^verbatim>\<open>select\<close>. In every run from there the
  dispatcher is still at that send: no topic entry is removed, no inbox of a consumer that
  existed is closed, none of the five channels is closed, and the dispatcher never
  returns. The claim describes what lines 325 to 331 were written to do; the code does not
  get past line 325.
\<close>

theorem stop_request_blocks:
  "dispatcher_at sys = Select \<and> i < length (parked sys) \<and> parked sys ! i = Some Stop
     \<and> StopApplication \<notin> set (closed_chans (hub sys)) \<longrightarrow>
   exec (Sync (Caller i) Dispatcher) sys =
     sys\<lparr>parked := (parked sys)[i := None], dispatcher_at := StopSend\<rparr>
   \<and> (\<forall>evs.
        dispatcher_at (run evs (exec (Sync (Caller i) Dispatcher) sys)) = StopSend
        \<and> consumers (hub (run evs (exec (Sync (Caller i) Dispatcher) sys))) = consumers (hub sys)
        \<and> closed_chans (hub (run evs (exec (Sync (Caller i) Dispatcher) sys)))
            = closed_chans (hub sys)
        \<and> (\<forall>c. inbox (heap (hub (run evs (exec (Sync (Caller i) Dispatcher) sys))) c) = Closed
              \<longrightarrow> inbox (heap (hub sys) c) = Closed))"
proof (intro impI)
  assume a: "dispatcher_at sys = Select \<and> i < length (parked sys) \<and> parked sys ! i = Some Stop
     \<and> StopApplication \<notin> set (closed_chans (hub sys))"
  let ?sys = "sys\<lparr>parked := (parked sys)[i := None], dispatcher_at := StopSend\<rparr>"
  from a have first: "exec (Sync (Caller i) Dispatcher) sys = ?sys" by simp
  have "dispatcher_at ?sys = StopSend" by simp
  from run_StopSend [OF this] have
    "\<forall>evs. dispatcher_at (run evs ?sys) = StopSend
        \<and> consumers (hub (run evs ?sys)) = consumers (hub sys)
        \<and> closed_chans (hub (run evs ?sys)) = closed_chans (hub sys)
        \<and> (\<forall>c. inbox (heap (hub (run evs ?sys)) c) = Closed \<longrightarrow> inbox (heap (hub sys) c) = Closed)"
    by simp
  with first show "exec (Sync (Caller i) Dispatcher) sys = ?sys
   \<and> (\<forall>evs.
        dispatcher_at (run evs (exec (Sync (Caller i) Dispatcher) sys)) = StopSend
        \<and> consumers (hub (run evs (exec (Sync (Caller i) Dispatcher) sys))) = consumers (hub sys)
        \<and> closed_chans (hub (run evs (exec (Sync (Caller i) Dispatcher) sys)))
            = closed_chans (hub sys)
        \<and> (\<forall>c. inbox (heap (hub (run evs (exec (Sync (Caller i) Dispatcher) sys))) c) = Closed
              \<longrightarrow> inbox (heap (hub sys) c) = Closed))"
    by simp
qed

theorem stop_request_blocks_witness:
  "dispatcher_at
     (run [Call Stop, Sync (Caller 0) Dispatcher, Call (CloseTopic ''all''),
           Sync (Caller 1) Dispatcher, Sync Dispatcher Dispatcher, Sync Dispatcher (Caller 1)]
        example_system) = StopSend
   \<and> consumers (hub
       (run [Call Stop, Sync (Caller 0) Dispatcher, Call (CloseTopic ''all''),
             Sync (Caller 1) Dispatcher, Sync Dispatcher Dispatcher, Sync Dispatcher (Caller 1)]
          example_system)) = [(''news'', [0, 1]), (''sport'', [2])]
   \<and> closed_chans (hub
       (run [Call Stop, Sync (Caller 0) Dispatcher, Call (CloseTopic ''all''),
             Sync (Caller 1) Dispatcher, Sync Dispatcher Dispatcher, Sync Dispatcher (Caller 1)]
          example_system)) = []"
  using stop_request_blocks [of "exec (Call Stop) example_system" 0]
  by (simp add: example_defs)

text \<open>
  Claim C8, as amended. A subscribe that names the reserved broadcast topic is rejected
  with status 400 before \<^verbatim>\<open>Hijack\<close> is called; a subscribe whose hijack fails returns
  the connect error and has not touched the client's connection; a subscribe whose write of
  the response headers fails returns the connect error with the connection closed. In all
  three cases the handler answers with an error status and leaves the system as it was: no
  consumer is stored, no worker is started, no join request is parked for the dispatcher,
  and the topic map is the same.
\<close>

theorem subscribe_failure:
  "(name = globalChannel \<longrightarrow>
      subscribeHandler name x sys = (sys, \<lparr>http_error = Some 400, conn_after = client x\<rparr>))
   \<and> (name \<noteq> [] \<and> name \<noteq> globalChannel \<and> hijack_fails x \<longrightarrow>
        newConsumer (settings (hub sys)) x name = (Inl ConnectError, client x)
        \<and> subscribeHandler name x sys = (sys, \<lparr>http_error = Some 500, conn_after = client x\<rparr>))
   \<and> (name \<noteq> [] \<and> name \<noteq> globalChannel \<and> \<not> hijack_fails x \<and> preamble_write x = WriteErr err \<longrightarrow>
        newConsumer (settings (hub sys)) x name = (Inl ConnectError, (client x)\<lparr>closed := True\<rparr>)
        \<and> subscribeHandler name x sys =
            (sys, \<lparr>http_error = Some 500, conn_after = (client x)\<lparr>closed := True\<rparr>\<rparr>))"
  by (simp add: subscribeHandler_def newConsumer_failure globalChannel_def)

theorem subscribe_failure_witness:
  "subscribeHandler ''all''
     \<lparr>client = example_conn, hijack_fails = False, preamble_write = WriteOk\<rparr> example_system
     = (example_system, \<lparr>http_error = Some 400, conn_after = example_conn\<rparr>)
   \<and> subscribeHandler ''news''
     \<lparr>client = example_conn, hijack_fails = True, preamble_write = WriteOk\<rparr> example_system
     = (example_system, \<lparr>http_error = Some 500, conn_after = example_conn\<rparr>)
   \<and> subscribeHandler ''news''
     \<lparr>client = example_conn, hijack_fails = False, preamble_write = WriteErr OtherError\<rparr>
     example_system
     = (example_system, \<lparr>http_error = Some 500, conn_after = example_conn\<lparr>closed := True\<rparr>\<rparr>)"
  using
    subscribe_failure [of "''all''"
      "\<lparr>client = example_conn, hijack_fails = False, preamble_write = WriteOk\<rparr>" example_system]
    subscribe_failure [of "''news''"
      "\<lparr>client = example_conn, hijack_fails = True, preamble_write = WriteOk\<rparr>" example_system]
    subscribe_failure [of "''news''"
      "\<lparr>client = example_conn, hijack_fails = False, preamble_write = WriteErr OtherError\<rparr>"
      example_system OtherError]
  by (simp add: globalChannel_def)

text \<open>
  Claim C8 as stated fails where the hijack fails: \<^verbatim>\<open>newConsumer\<close> returns the error
  at line 29 and the client's connection, open before, is still open.
\<close>

theorem subscribe_hijack_counterexample:
  "newConsumer zero_Settings
     \<lparr>client = example_conn, hijack_fails = True, preamble_write = WriteOk\<rparr> ''news''
     = (Inl ConnectError, example_conn)
   \<and> closed example_conn = False
   \<and> closed (conn_after (snd (subscribeHandler ''news''
        \<lparr>client = example_conn, hijack_fails = True, preamble_write = WriteOk\<rparr>
        example_system))) = False"
  by (simp add: newConsumer_failure subscribeHandler_def example_conn_def globalChannel_def)

text \<open>
  Claim C9, on the code. A goroutine other than the dispatcher that runs one of the four
  queries reads the map itself: the query functions index and range over
  \<^verbatim>\<open>es.consumers\<close> in the caller's goroutine and send nothing to the dispatcher.
  In the run below, from a new hub, a subscriber's join for news is parked, a caller asks
  whether news exists (it does not yet), the dispatcher processes the join, and a caller
  asks again: the map is read by the callers' goroutines before and after the dispatcher's
  own read and write, with nothing that orders these accesses.
\<close>

theorem query_reads_map_directly:
  "(Caller (length (parked sys)), MapRead) \<in> set (accesses (exec (Ask q) sys))
   \<and> dispatcher_at (exec (Ask q) sys) = dispatcher_at sys
   \<and> accesses
        (run [Subscribe ''news''
                \<lparr>client = example_conn, hijack_fails = False, preamble_write = WriteOk\<rparr>,
              Ask (AskChannelExists ''news''), Sync (Caller 0) Dispatcher,
              Ask (AskChannelExists ''news'')]
           (New None (\<lambda>c. example_consumer [] Busy)))
      = [(Caller 1, MapRead), (Dispatcher, MapRead), (Dispatcher, MapWrite), (Caller 2, MapRead)]
   \<and> answers
        (run [Subscribe ''news''
                \<lparr>client = example_conn, hijack_fails = False, preamble_write = WriteOk\<rparr>,
              Ask (AskChannelExists ''news''), Sync (Caller 0) Dispatcher,
              Ask (AskChannelExists ''news'')]
           (New None (\<lambda>c. example_consumer [] Busy)))
      = [Exists False, Exists True]"
  by (simp add: example_defs New_def ChannelExists_def continue_with_def subscribeHandler_def
      newConsumer_failure recv_addConsumer_def)


end
